theory Spec2Isabelle
  imports Main "HOL-Library.Multiset"
begin

section \<open>The ownership tree as the traversal engine sees it\<close>

text \<open>
  The traversal engine of \<^verbatim>\<open>src/object.cpp\<close> (\<^verbatim>\<open>Object::Process\<close>) walks the
  children vectors and never changes them, so for the engine an object is a tree value: its
  identity, its class id, the data the engine and the modelled visitors read from it, and the
  sequence of its children. The operations that move objects between parents work on pointers
  and need aliasing; they are modelled on an explicit store further below.
\<close>

type_synonym ident = nat

datatype FunctorCode = FUNCTOR_CONTINUE | FUNCTOR_SIBLINGS | FUNCTOR_STOP

text \<open>
  \<^verbatim>\<open>direction\<close> is a \<^verbatim>\<open>bool\<close> in the source, only ever compared with the two
  names \<^verbatim>\<open>FORWARD\<close> and \<^verbatim>\<open>BACKWARD\<close>.
\<close>

datatype Direction = FORWARD | BACKWARD

text \<open>The class ids that the modelled functions of \<^verbatim>\<open>object.cpp\<close> compare with.\<close>

datatype ClassId =
  OBJECT | MDIV | SCORE | PAGE_MILESTONE_END | STAFF | LAYER | NOTE
  | BEAM | STEM | FB | FIGURE | SYL | CLEF | LB | TEXT

datatype Visibility = Hidden | Visible

datatype ScoreDefRole = SCOREDEF_NONE | SCOREDEF_SYSTEM | SCOREDEF_STAFF

text \<open>
  What \<^verbatim>\<open>CalcBBoxOverflows\<close> reads through the parent pointer of a stem:
  whether the parent is a layer element, its \<^verbatim>\<open>m_crossStaff\<close>, the cross-staff mark
  of its ancestor beam when \<^verbatim>\<open>GetAncestorBeam()\<close> finds one, and
  \<^verbatim>\<open>GetIsInBeamSpan()\<close>.
\<close>

record StemParent =
  sp_crossStaff :: bool
  sp_ancestorBeamCrossStaff :: "bool option"
  sp_isInBeamSpan :: bool

text \<open>
  The per-object data. The four \<^verbatim>\<open>Is...Element()\<close> predicates are virtual methods
  answered by the subclasses (declared in \<^verbatim>\<open>object.h\<close>, implemented outside the
  sources at hand), so they are values of the object. The remaining fields are the members and
  getters of the subclasses that the modelled code reads after its casts: the visibility of
  editorial, mdiv and system elements; the start of a page milestone end (class and identity,
  \<open>None\<close> for a null pointer); a staff's drawing visibility and its alignment (a key into
  the alignments of the pass); the cross-staff marks of layer elements and beams; and for a
  layer element its own bounding box flag, the alignments
  \<^verbatim>\<open>GetOverflowStaffAlignments\<close> yields, the overflows
  \<^verbatim>\<open>CalcOverflowAbove\<close> and \<^verbatim>\<open>CalcOverflowBelow\<close> compute for it, and its
  scoreDef role.
\<close>

record Attrs =
  isEditorialElement :: bool
  isSystemElement :: bool
  isControlElement :: bool
  isLayerElement :: bool
  m_visibility :: Visibility
  m_start :: "(ClassId \<times> ident) option"
  drawingIsVisible :: bool
  alignment :: "nat option"
  m_crossStaff :: bool
  m_crossStaffContent :: bool
  stemParent :: "StemParent option"
  hasSelfBB :: bool
  overflowStaffAlignments :: "nat option \<times> nat option"
  calcOverflowAbove :: int
  calcOverflowBelow :: int
  scoreDefRole :: ScoreDefRole

text \<open>
  An object: identity (the address in the source), class id, data, the attached scoreDef
  elements of a layer (the non-null ones among clef, key signature, mensur and meter
  signature, in the order the source asks for them; first the initial, then the cautionary
  ones), and the children vector \<^verbatim>\<open>m_children\<close>.
\<close>

datatype Object =
  Object (m_id: ident) (m_classId: ClassId) (attrs: Attrs)
    (staffDefs: "Object list") (cautionStaffDefs: "Object list") (m_children: "Object list")

definition Is :: "Object \<Rightarrow> ClassId \<Rightarrow> bool" where
  "Is this classId = (m_classId this = classId)"

definition IsEditorialElement :: "Object \<Rightarrow> bool" where
  "IsEditorialElement this = isEditorialElement (attrs this)"

definition IsSystemElement :: "Object \<Rightarrow> bool" where
  "IsSystemElement this = isSystemElement (attrs this)"



section \<open>The traversal engine: \<^verbatim>\<open>Object::Process\<close> with function-pointer functors\<close>

text \<open>
  A \<^verbatim>\<open>Functor\<close> holds the member function it calls and the flag
  \<^verbatim>\<open>m_visibleOnly\<close>; its third member, \<^verbatim>\<open>m_returnCode\<close>, changes during the
  walk and lives in the state. The member function reads the object and reads and writes the
  \<^verbatim>\<open>FunctorParams\<close> of type \<open>'p\<close>.
\<close>

record 'p Functor =
  obj_fpt :: "Object \<Rightarrow> 'p \<Rightarrow> FunctorCode \<times> 'p"
  m_visibleOnly :: bool

text \<open>
  The log of the calls made, in order: which functor was called on which object and what it
  returned. The log is not in the source; it is what the claims about visits speak about.
\<close>

datatype Event = Visit ident FunctorCode | VisitEnd ident FunctorCode

text \<open>
  The state a walk threads through its calls: \<^verbatim>\<open>functor->m_returnCode\<close>,
  \<^verbatim>\<open>endFunctor->m_returnCode\<close> (the two functors are distinct objects at every call
  site of the source), the functor parameters, the current score of the document, and the log.
\<close>

record 'p ProcState =
  returnCode :: FunctorCode
  endReturnCode :: FunctorCode
  functorParams :: 'p
  currentScore :: "ident option"
  trace :: "Event list"

text \<open>\<^verbatim>\<open>Functor::Call\<close> on the entry functor and on the end functor.\<close>

definition Call :: "'p Functor \<Rightarrow> Object \<Rightarrow> 'p ProcState \<Rightarrow> 'p ProcState" where
  "Call functor ptr s =
     (let r = obj_fpt functor ptr (functorParams s)
      in s\<lparr>returnCode := fst r, functorParams := snd r,
           trace := trace s @ [Visit (m_id ptr) (fst r)]\<rparr>)"

definition CallEnd :: "'p Functor \<Rightarrow> Object \<Rightarrow> 'p ProcState \<Rightarrow> 'p ProcState" where
  "CallEnd endFunctor ptr s =
     (let r = obj_fpt endFunctor ptr (functorParams s)
      in s\<lparr>endReturnCode := fst r, functorParams := snd r,
           trace := trace s @ [VisitEnd (m_id ptr) (fst r)]\<rparr>)"

text \<open>\<^verbatim>\<open>Object::UpdateDocumentScore\<close>.\<close>

definition UpdateDocumentScore :: "Direction \<Rightarrow> Object \<Rightarrow> 'p ProcState \<Rightarrow> 'p ProcState" where
  "UpdateDocumentScore direction this s =
     (if direction = FORWARD \<and> Is this SCORE then s\<lparr>currentScore := Some (m_id this)\<rparr>
      else if direction = BACKWARD \<and> Is this PAGE_MILESTONE_END then
        (case m_start (attrs this) of
           Some (cls, start) \<Rightarrow> if cls = SCORE then s\<lparr>currentScore := Some start\<rparr> else s
         | None \<Rightarrow> s)
      else s)"

text \<open>\<^verbatim>\<open>Object::SkipChildren\<close>.\<close>

definition SkipChildren :: "Object \<Rightarrow> bool \<Rightarrow> bool" where
  "SkipChildren this visibleOnly =
     (if visibleOnly then
        (if IsEditorialElement this then m_visibility (attrs this) = Hidden
         else if Is this MDIV then m_visibility (attrs this) = Hidden
         else if IsSystemElement this then m_visibility (attrs this) = Hidden
         else False)
      else False)"

text \<open>
  \<^verbatim>\<open>Object::FiltersApply\<close>. The class \<^verbatim>\<open>Filters\<close> is declared outside the
  sources at hand; a filter set is the predicate its \<^verbatim>\<open>Apply\<close> computes, and a null
  pointer is \<open>None\<close>.
\<close>

type_synonym Filters = "(Object \<Rightarrow> bool) option"

definition FiltersApply :: "Filters \<Rightarrow> Object \<Rightarrow> bool" where
  "FiltersApply filters object = (case filters of None \<Rightarrow> True | Some apply \<Rightarrow> apply object)"

lemma size_list_rev: "size_list f (rev xs) = size_list f xs"
  by (induction xs) (simp_all add: size_list_append)

lemma size_m_children: "size_list size (m_children this) < size this"
  by (cases this) simp

text \<open>
  \<^verbatim>\<open>Object::Process(Functor *, FunctorParams *, Functor *endFunctor, Filters *, int
  deepness, bool direction, bool skipFirst)\<close>. \<open>ProcessChildren\<close> is the body of its two
  loops over the children (the calls on the children pass no \<^verbatim>\<open>skipFirst\<close>, which
  is then false); the backward loop runs over the reversed vector. \<^verbatim>\<open>deepness\<close> is a
  C \<^verbatim>\<open>int\<close>: it moves by one per call, so it leaves the 32-bit range only on trees
  more than \<open>2^31\<close> levels deep, and is modelled as an integer.
\<close>

function Process :: "'p Functor \<Rightarrow> 'p Functor option \<Rightarrow> Filters \<Rightarrow> int \<Rightarrow> Direction \<Rightarrow> bool
    \<Rightarrow> Object \<Rightarrow> 'p ProcState \<Rightarrow> 'p ProcState"
  and ProcessChildren :: "'p Functor \<Rightarrow> 'p Functor option \<Rightarrow> Filters \<Rightarrow> int \<Rightarrow> Direction
    \<Rightarrow> Object list \<Rightarrow> 'p ProcState \<Rightarrow> 'p ProcState"
where
  "Process functor endFunctor filters deepness direction skipFirst this s =
     (if returnCode s = FUNCTOR_STOP then s
      else
        let s1 = UpdateDocumentScore direction this s;
            s2 = (if \<not> skipFirst then Call functor this s1 else s1)
        in
          if returnCode s2 = FUNCTOR_SIBLINGS then s2\<lparr>returnCode := FUNCTOR_CONTINUE\<rparr>
          else
            let deepness1 = (if IsEditorialElement this then deepness + 1 else deepness)
            in
              if deepness1 = 0 then s2
              else
                let deepness2 = deepness1 - 1;
                    s3 = (if \<not> SkipChildren this (m_visibleOnly functor) then
                            (if direction = BACKWARD then
                               ProcessChildren functor endFunctor filters deepness2 direction
                                 (rev (m_children this)) s2
                             else
                               ProcessChildren functor endFunctor filters deepness2 direction
                                 (m_children this) s2)
                          else s2)
                in
                  (case endFunctor of
                     Some ef \<Rightarrow> if \<not> skipFirst then CallEnd ef this s3 else s3
                   | None \<Rightarrow> s3))"
| "ProcessChildren functor endFunctor filters deepness direction [] s = s"
| "ProcessChildren functor endFunctor filters deepness direction (child # rest) s =
     ProcessChildren functor endFunctor filters deepness direction rest
       (if FiltersApply filters child then
          Process functor endFunctor filters deepness direction False child s
        else s)"
  by pat_completeness auto

termination
proof (relation "measure (\<lambda>x. case x of
    Inl (_, _, _, _, _, _, this, _) \<Rightarrow> size this
  | Inr (_, _, _, _, _, children, _) \<Rightarrow> size_list size children)")
qed (auto simp: size_list_rev size_m_children)

declare Process.simps [simp del]

section \<open>The traversal engine: \<^verbatim>\<open>Object::Process\<close> with a functor object\<close>

text \<open>
  A \<^verbatim>\<open>MutableFunctor\<close> carries its visit methods, whether it implements the end
  interface, and the settings the engine asks it for. \<^verbatim>\<open>Accept\<close> and
  \<^verbatim>\<open>AcceptEnd\<close> are virtual and end in one visit method of the functor, which is a
  function of the object here. The functor's code (\<^verbatim>\<open>GetCode\<close>,
  \<^verbatim>\<open>SetCode\<close>) is the field \<open>returnCode\<close> of the state and its own data the
  field \<open>functorParams\<close>; \<open>endReturnCode\<close> is not used by this overload.
\<close>

record 'p MutableFunctor =
  VisitObject :: "Object \<Rightarrow> 'p \<Rightarrow> FunctorCode \<times> 'p"
  VisitObjectEnd :: "Object \<Rightarrow> 'p \<Rightarrow> FunctorCode \<times> 'p"
  ImplementsEndInterface :: bool
  VisibleOnly :: bool
  GetDirection :: Direction
  GetFilters :: Filters

definition GetCode :: "'p ProcState \<Rightarrow> FunctorCode" where
  "GetCode s = returnCode s"

definition SetCode :: "FunctorCode \<Rightarrow> 'p ProcState \<Rightarrow> 'p ProcState" where
  "SetCode code s = s\<lparr>returnCode := code\<rparr>"

definition Accept :: "'p MutableFunctor \<Rightarrow> Object \<Rightarrow> 'p ProcState \<Rightarrow> FunctorCode \<times> 'p ProcState" where
  "Accept functor this s =
     (let r = VisitObject functor this (functorParams s)
      in (fst r, s\<lparr>functorParams := snd r, trace := trace s @ [Visit (m_id this) (fst r)]\<rparr>))"

definition AcceptEnd :: "'p MutableFunctor \<Rightarrow> Object \<Rightarrow> 'p ProcState \<Rightarrow> FunctorCode \<times> 'p ProcState" where
  "AcceptEnd functor this s =
     (let r = VisitObjectEnd functor this (functorParams s)
      in (fst r, s\<lparr>functorParams := snd r, trace := trace s @ [VisitEnd (m_id this) (fst r)]\<rparr>))"

text \<open>\<^verbatim>\<open>Object::Process(MutableFunctor &functor, int deepness, bool skipFirst)\<close>.\<close>

function ProcessM :: "'p MutableFunctor \<Rightarrow> int \<Rightarrow> bool \<Rightarrow> Object \<Rightarrow> 'p ProcState \<Rightarrow> 'p ProcState"
  and ProcessChildrenM :: "'p MutableFunctor \<Rightarrow> int \<Rightarrow> Object list \<Rightarrow> 'p ProcState \<Rightarrow> 'p ProcState"
where
  "ProcessM functor deepness skipFirst this s =
     (if GetCode s = FUNCTOR_STOP then s
      else
        let s1 = UpdateDocumentScore (GetDirection functor) this s;
            s2 = (if \<not> skipFirst then
                    (let r = Accept functor this s1 in SetCode (fst r) (snd r))
                  else s1)
        in
          if GetCode s2 = FUNCTOR_SIBLINGS then SetCode FUNCTOR_CONTINUE s2
          else
            let deepness1 = (if IsEditorialElement this then deepness + 1 else deepness)
            in
              if deepness1 = 0 then s2
              else
                let deepness2 = deepness1 - 1;
                    s3 = (if \<not> SkipChildren this (VisibleOnly functor) then
                            (if GetDirection functor = BACKWARD then
                               ProcessChildrenM functor deepness2 (rev (m_children this)) s2
                             else
                               ProcessChildrenM functor deepness2 (m_children this) s2)
                          else s2)
                in
                  if ImplementsEndInterface functor \<and> \<not> skipFirst then
                    (let r = AcceptEnd functor this s3 in SetCode (fst r) (snd r))
                  else s3)"
| "ProcessChildrenM functor deepness [] s = s"
| "ProcessChildrenM functor deepness (child # rest) s =
     ProcessChildrenM functor deepness rest
       (if FiltersApply (GetFilters functor) child then ProcessM functor deepness False child s
        else s)"
  by pat_completeness auto

termination
proof (relation "measure (\<lambda>x. case x of
    Inl (_, _, _, this, _) \<Rightarrow> size this
  | Inr (_, _, children, _) \<Rightarrow> size_list size children)")
qed (auto simp: size_list_rev size_m_children)

declare ProcessM.simps [simp del]

section \<open>Basic facts about a walk\<close>

lemma trace_UpdateDocumentScore [simp]:
  "trace (UpdateDocumentScore direction this s) = trace s"
  by (simp add: UpdateDocumentScore_def split: option.splits prod.splits)

lemma returnCode_UpdateDocumentScore [simp]:
  "returnCode (UpdateDocumentScore direction this s) = returnCode s"
  by (simp add: UpdateDocumentScore_def split: option.splits prod.splits)

lemma params_UpdateDocumentScore [simp]:
  "functorParams (UpdateDocumentScore direction this s) = functorParams s"
  by (simp add: UpdateDocumentScore_def split: option.splits prod.splits)

lemma Process_STOP:
  "returnCode s = FUNCTOR_STOP \<Longrightarrow> Process f ef fl d dir sk this s = s"
  by (simp add: Process.simps)

lemma ProcessChildren_STOP:
  "returnCode s = FUNCTOR_STOP \<Longrightarrow> ProcessChildren f ef fl d dir cs s = s"
  by (induction cs) (simp_all add: Process_STOP)

lemma Process_SIBLINGS:
  assumes "returnCode s \<noteq> FUNCTOR_STOP"
    and "fst (obj_fpt f this (functorParams s)) = FUNCTOR_SIBLINGS"
  shows "Process f ef fl d dir False this s =
    (Call f this (UpdateDocumentScore dir this s))\<lparr>returnCode := FUNCTOR_CONTINUE\<rparr>"
  using assms by (simp add: Process.simps Call_def Let_def)

lemma ProcessM_SIBLINGS:
  assumes "GetCode s \<noteq> FUNCTOR_STOP"
    and "fst (VisitObject mf this (functorParams s)) = FUNCTOR_SIBLINGS"
  shows "ProcessM mf d False this s =
    SetCode FUNCTOR_CONTINUE (snd (Accept mf this (UpdateDocumentScore (GetDirection mf) this s)))"
  using assms by (simp add: ProcessM.simps Accept_def SetCode_def GetCode_def Let_def)

text \<open>
  Names for the stages of one call of \<^verbatim>\<open>Process\<close>: the state after the score
  update and the entry call, the depth budget after the wrapper adjustment, the state after
  the loop over the children, and the state after the end call.
\<close>

definition entered :: "'p Functor \<Rightarrow> Direction \<Rightarrow> bool \<Rightarrow> Object \<Rightarrow> 'p ProcState \<Rightarrow> 'p ProcState" where
  "entered f dir sk this s =
     (if \<not> sk then Call f this (UpdateDocumentScore dir this s)
      else UpdateDocumentScore dir this s)"

definition budget :: "Object \<Rightarrow> int \<Rightarrow> int" where
  "budget this d = (if IsEditorialElement this then d + 1 else d)"

definition descend :: "'p Functor \<Rightarrow> 'p Functor option \<Rightarrow> Filters \<Rightarrow> int \<Rightarrow> Direction
    \<Rightarrow> Object \<Rightarrow> 'p ProcState \<Rightarrow> 'p ProcState" where
  "descend f ef fl d dir this s =
     (if \<not> SkipChildren this (m_visibleOnly f) then
        (if dir = BACKWARD then ProcessChildren f ef fl d dir (rev (m_children this)) s
         else ProcessChildren f ef fl d dir (m_children this) s)
      else s)"

definition leave :: "'p Functor option \<Rightarrow> bool \<Rightarrow> Object \<Rightarrow> 'p ProcState \<Rightarrow> 'p ProcState" where
  "leave ef sk this s =
     (case ef of Some e \<Rightarrow> if \<not> sk then CallEnd e this s else s | None \<Rightarrow> s)"

lemma Process_eq:
  "Process f ef fl d dir sk this s =
     (if returnCode s = FUNCTOR_STOP then s
      else if returnCode (entered f dir sk this s) = FUNCTOR_SIBLINGS
        then (entered f dir sk this s)\<lparr>returnCode := FUNCTOR_CONTINUE\<rparr>
      else if budget this d = 0 then entered f dir sk this s
      else leave ef sk this (descend f ef fl (budget this d - 1) dir this (entered f dir sk this s)))"
  by (simp add: Process.simps [of f ef fl d dir sk this s] Let_def entered_def budget_def
      descend_def leave_def)

text \<open>
  A property of the state that every step of the engine keeps is kept by a whole walk.
\<close>

lemma Process_invariant:
  assumes "\<And>n s. I s \<Longrightarrow> returnCode s \<noteq> FUNCTOR_STOP \<Longrightarrow> I (UpdateDocumentScore dir n s)"
    and "\<And>n s. I s \<Longrightarrow> returnCode s \<noteq> FUNCTOR_STOP \<Longrightarrow> I (Call f n s)"
    and "\<And>s. I s \<Longrightarrow> returnCode s = FUNCTOR_SIBLINGS \<Longrightarrow> I (s\<lparr>returnCode := FUNCTOR_CONTINUE\<rparr>)"
    and "\<And>e n s. ef = Some e \<Longrightarrow> I s \<Longrightarrow> I (CallEnd e n s)"
  shows "I s \<Longrightarrow> I (Process f ef fl d dir sk this s)"
    and "I s \<Longrightarrow> I (ProcessChildren f ef fl d dir cs s)"
  using assms
proof (induction f ef fl d dir sk this s and f ef fl d dir cs s
    rule: Process_ProcessChildren.induct)
  case (1 f ef fl d dir sk this s)
  have Is: "I s"
    and upd: "\<And>n s. I s \<Longrightarrow> returnCode s \<noteq> FUNCTOR_STOP \<Longrightarrow> I (UpdateDocumentScore dir n s)"
    and call: "\<And>n s. I s \<Longrightarrow> returnCode s \<noteq> FUNCTOR_STOP \<Longrightarrow> I (Call f n s)"
    and sib: "\<And>s. I s \<Longrightarrow> returnCode s = FUNCTOR_SIBLINGS \<Longrightarrow> I (s\<lparr>returnCode := FUNCTOR_CONTINUE\<rparr>)"
    and endc: "\<And>e n s. ef = Some e \<Longrightarrow> I s \<Longrightarrow> I (CallEnd e n s)"
    using "1.prems" by blast+
  show ?case
  proof (cases "returnCode s = FUNCTOR_STOP")
    case True
    then show ?thesis using Is by (simp add: Process_STOP)
  next
    case False
    define s2 where "s2 = entered f dir sk this s"
    have I2: "I s2"
      using Is upd call False by (simp add: s2_def entered_def)
    show ?thesis
    proof (cases "returnCode s2 = FUNCTOR_SIBLINGS")
      case True
      then show ?thesis
        using False sib [OF I2] unfolding s2_def by (simp add: Process_eq)
    next
      case nsib: False
      show ?thesis
      proof (cases "budget this d = 0")
        case True
        then show ?thesis
          using False nsib I2 unfolding s2_def by (simp add: Process_eq)
      next
        case nz: False
        have I3: "I (descend f ef fl (budget this d - 1) dir this s2)"
        proof (cases "SkipChildren this (m_visibleOnly f)")
          case True
          then show ?thesis using I2 by (simp add: descend_def)
        next
          case nskip: False
          have s2': "s2 = (if \<not> sk then Call f this (UpdateDocumentScore dir this s)
              else UpdateDocumentScore dir this s)"
            by (simp add: s2_def entered_def)
          have b: "budget this d = (if IsEditorialElement this then d + 1 else d)"
            by (simp add: budget_def)
          show ?thesis
          proof (cases "dir = BACKWARD")
            case True
            have "I (ProcessChildren f ef fl (budget this d - 1) dir (rev (m_children this)) s2)"
              using "1.IH"(1) [OF False refl s2' nsib b nz refl nskip True I2]
                upd call sib endc by blast
            then show ?thesis using nskip True by (simp add: descend_def)
          next
            case fw: False
            have "I (ProcessChildren f ef fl (budget this d - 1) dir (m_children this) s2)"
              using "1.IH"(2) [OF False refl s2' nsib b nz refl nskip fw I2]
                upd call sib endc by blast
            then show ?thesis using nskip fw by (simp add: descend_def)
          qed
        qed
        have "I (leave ef sk this (descend f ef fl (budget this d - 1) dir this s2))"
          using I3 endc by (cases ef) (simp_all add: leave_def)
        then show ?thesis
          using False nsib nz unfolding s2_def by (simp add: Process_eq)
      qed
    qed
  qed
next
  case (2 f ef fl d dir s)
  then show ?case by simp
next
  case (3 f ef fl d dir child rest s)
  have "I (if FiltersApply fl child then Process f ef fl d dir False child s else s)"
    using "3.IH"(1) "3.prems" by auto
  then show ?case
    using "3.IH"(2) "3.prems" by simp
qed

lemma trace_Call [simp]:
  "trace (Call f this s) = trace s @ [Visit (m_id this) (fst (obj_fpt f this (functorParams s)))]"
  by (simp add: Call_def Let_def)

lemma returnCode_Call [simp]:
  "returnCode (Call f this s) = fst (obj_fpt f this (functorParams s))"
  by (simp add: Call_def Let_def)

lemma trace_CallEnd [simp]:
  "trace (CallEnd e this s) = trace s @ [VisitEnd (m_id this) (fst (obj_fpt e this (functorParams s)))]"
  by (simp add: CallEnd_def Let_def)

lemma returnCode_CallEnd [simp]: "returnCode (CallEnd e this s) = returnCode s"
  by (simp add: CallEnd_def Let_def)

lemma trace_extends:
  "\<exists>evs. trace (Process f ef fl d dir sk this s) = trace s @ evs"
  "\<exists>evs. trace (ProcessChildren f ef fl d dir cs s) = trace s @ evs"
proof -
  let ?I = "\<lambda>s'. \<exists>evs. trace s' = trace s @ evs"
  have "?I s" by simp
  then show "?I (Process f ef fl d dir sk this s)"
    by (rule Process_invariant(1) [where I = ?I, rotated -1]) auto
  have "?I s" by simp
  then show "?I (ProcessChildren f ef fl d dir cs s)"
    by (rule Process_invariant(2) [where I = ?I, rotated -1]) auto
qed

lemma trace_descend_extends:
  "\<exists>evs. trace (descend f ef fl d dir this s) = trace s @ evs"
  using trace_extends(2) [of f ef fl d dir "rev (m_children this)" s]
    trace_extends(2) [of f ef fl d dir "m_children this" s]
  by (cases dir) (simp_all add: descend_def)

lemma trace_leave_extends: "\<exists>evs. trace (leave ef sk this s) = trace s @ evs"
  by (cases ef) (simp_all add: leave_def)

text \<open>A call of \<^verbatim>\<open>Process\<close> that is not stopped logs the entry visit first.\<close>

lemma trace_Process_first:
  assumes "returnCode s \<noteq> FUNCTOR_STOP"
  shows "\<exists>evs. trace (Process f ef fl d dir False this s) =
    trace s @ Visit (m_id this) (fst (obj_fpt f this (functorParams s))) # evs"
proof -
  let ?s2 = "entered f dir False this s"
  have t2: "trace ?s2 = trace s @ [Visit (m_id this) (fst (obj_fpt f this (functorParams s)))]"
    by (simp add: entered_def)
  obtain evs where "trace (descend f ef fl (budget this d - 1) dir this ?s2) = trace ?s2 @ evs"
    using trace_descend_extends by blast
  moreover obtain evs' where
    "trace (leave ef False this (descend f ef fl (budget this d - 1) dir this ?s2)) =
      trace (descend f ef fl (budget this d - 1) dir this ?s2) @ evs'"
    using trace_leave_extends by blast
  ultimately have "trace (leave ef False this (descend f ef fl (budget this d - 1) dir this ?s2)) =
      trace s @ Visit (m_id this) (fst (obj_fpt f this (functorParams s))) # (evs @ evs')"
    by (simp add: t2)
  then show ?thesis
    using assms t2 by (simp add: Process_eq)
qed

subsection \<open>The same facts for the functor-object overload\<close>

definition enteredM :: "'p MutableFunctor \<Rightarrow> bool \<Rightarrow> Object \<Rightarrow> 'p ProcState \<Rightarrow> 'p ProcState" where
  "enteredM mf sk this s =
     (if \<not> sk then
        (let r = Accept mf this (UpdateDocumentScore (GetDirection mf) this s)
         in SetCode (fst r) (snd r))
      else UpdateDocumentScore (GetDirection mf) this s)"

definition descendM :: "'p MutableFunctor \<Rightarrow> int \<Rightarrow> Object \<Rightarrow> 'p ProcState \<Rightarrow> 'p ProcState" where
  "descendM mf d this s =
     (if \<not> SkipChildren this (VisibleOnly mf) then
        (if GetDirection mf = BACKWARD then ProcessChildrenM mf d (rev (m_children this)) s
         else ProcessChildrenM mf d (m_children this) s)
      else s)"

definition leaveM :: "'p MutableFunctor \<Rightarrow> bool \<Rightarrow> Object \<Rightarrow> 'p ProcState \<Rightarrow> 'p ProcState" where
  "leaveM mf sk this s =
     (if ImplementsEndInterface mf \<and> \<not> sk then
        (let r = AcceptEnd mf this s in SetCode (fst r) (snd r))
      else s)"

lemma ProcessM_eq:
  "ProcessM mf d sk this s =
     (if GetCode s = FUNCTOR_STOP then s
      else if GetCode (enteredM mf sk this s) = FUNCTOR_SIBLINGS
        then SetCode FUNCTOR_CONTINUE (enteredM mf sk this s)
      else if budget this d = 0 then enteredM mf sk this s
      else leaveM mf sk this (descendM mf (budget this d - 1) this (enteredM mf sk this s)))"
  by (simp add: ProcessM.simps [of mf d sk this s] Let_def enteredM_def budget_def
      descendM_def leaveM_def)

lemma trace_enteredM [simp]:
  "trace (enteredM mf False this s) =
     trace s @ [Visit (m_id this) (fst (VisitObject mf this (functorParams s)))]"
  by (simp add: enteredM_def Accept_def SetCode_def Let_def)

lemma GetCode_enteredM [simp]:
  "GetCode (enteredM mf False this s) = fst (VisitObject mf this (functorParams s))"
  by (simp add: enteredM_def Accept_def SetCode_def GetCode_def Let_def)

lemma traceM_extends:
  "\<exists>evs. trace (ProcessM mf d sk this s) = trace s @ evs"
  "\<exists>evs. trace (ProcessChildrenM mf d cs s) = trace s @ evs"
proof (induction mf d sk this s and mf d cs s rule: ProcessM_ProcessChildrenM.induct)
  case (1 mf d sk this s)
  define s2 where "s2 = enteredM mf sk this s"
  have t2: "\<exists>evs. trace s2 = trace s @ evs"
    by (simp add: s2_def enteredM_def Accept_def SetCode_def Let_def)
  show ?case
  proof (cases "GetCode s \<noteq> FUNCTOR_STOP \<and> GetCode s2 \<noteq> FUNCTOR_SIBLINGS \<and> budget this d \<noteq> 0")
    case False
    then show ?thesis
      using t2 unfolding s2_def by (auto simp: ProcessM_eq SetCode_def)
  next
    case True
    have s2': "s2 = (if \<not> sk then
        (let r = Accept mf this (UpdateDocumentScore (GetDirection mf) this s)
         in SetCode (fst r) (snd r))
        else UpdateDocumentScore (GetDirection mf) this s)"
      by (simp add: s2_def enteredM_def)
    have b: "budget this d = (if IsEditorialElement this then d + 1 else d)"
      by (simp add: budget_def)
    have t3: "\<exists>evs. trace (descendM mf (budget this d - 1) this s2) = trace s2 @ evs"
    proof (cases "SkipChildren this (VisibleOnly mf)")
      case True
      then show ?thesis by (simp add: descendM_def)
    next
      case nskip: False
      show ?thesis
      proof (cases "GetDirection mf = BACKWARD")
        case bw: True
        show ?thesis
          using "1.IH"(1) [OF _ refl s2' _ b _ refl nskip bw] True nskip bw
          by (simp add: descendM_def)
      next
        case fw: False
        show ?thesis
          using "1.IH"(2) [OF _ refl s2' _ b _ refl nskip fw] True nskip fw
          by (simp add: descendM_def)
      qed
    qed
    have t4: "\<exists>evs. trace (leaveM mf sk this s3) = trace s3 @ evs" for s3
      by (simp add: leaveM_def AcceptEnd_def SetCode_def Let_def)
    obtain e2 where e2: "trace s2 = trace s @ e2" using t2 by blast
    obtain e3 where e3: "trace (descendM mf (budget this d - 1) this s2) = trace s2 @ e3"
      using t3 by blast
    obtain e4 where e4: "trace (leaveM mf sk this (descendM mf (budget this d - 1) this s2)) =
        trace (descendM mf (budget this d - 1) this s2) @ e4"
      using t4 by blast
    show ?thesis
      using True e2 e3 e4 unfolding s2_def by (simp add: ProcessM_eq)
  qed
next
  case (2 mf d s)
  then show ?case by simp
next
  case (3 mf d child rest s)
  show ?case
  proof (cases "FiltersApply (GetFilters mf) child")
    case True
    then show ?thesis
      using "3.IH"(1) "3.IH"(2) by fastforce
  next
    case False
    then show ?thesis using "3.IH"(2) by simp
  qed
qed

lemma traceM_Process_first:
  assumes "GetCode s \<noteq> FUNCTOR_STOP"
  shows "\<exists>evs. trace (ProcessM mf d False this s) =
    trace s @ Visit (m_id this) (fst (VisitObject mf this (functorParams s))) # evs"
proof -
  let ?s2 = "enteredM mf False this s"
  have d: "\<exists>evs. trace (descendM mf d' this ?s2) = trace ?s2 @ evs" for d'
    using traceM_extends(2) [of mf d' "rev (m_children this)" ?s2]
      traceM_extends(2) [of mf d' "m_children this" ?s2]
    by (cases "GetDirection mf") (simp_all add: descendM_def)
  have l: "\<exists>evs. trace (leaveM mf False this s3) = trace s3 @ evs" for s3
    by (simp add: leaveM_def AcceptEnd_def SetCode_def Let_def)
  obtain evs where evs: "trace (descendM mf (budget this d - 1) this ?s2) = trace ?s2 @ evs"
    using d by blast
  obtain evs' where "trace (leaveM mf False this (descendM mf (budget this d - 1) this ?s2)) =
      trace (descendM mf (budget this d - 1) this ?s2) @ evs'"
    using l by blast
  then have "trace (leaveM mf False this (descendM mf (budget this d - 1) this ?s2)) =
      trace s @ Visit (m_id this) (fst (VisitObject mf this (functorParams s))) # (evs @ evs')"
    using evs by simp
  then show ?thesis
    using assms by (simp add: ProcessM_eq SetCode_def)
qed

section \<open>Example objects and functors\<close>

text \<open>Small concrete trees, states and functors on which the theorems below are run.\<close>

definition plainAttrs :: Attrs where
  "plainAttrs = \<lparr>isEditorialElement = False, isSystemElement = False, isControlElement = False,
     isLayerElement = False, m_visibility = Visible, m_start = None, drawingIsVisible = True,
     alignment = None, m_crossStaff = False, m_crossStaffContent = False, stemParent = None,
     hasSelfBB = False, overflowStaffAlignments = (None, None), calcOverflowAbove = 0,
     calcOverflowBelow = 0, scoreDefRole = SCOREDEF_NONE\<rparr>"

definition leaf :: "ident \<Rightarrow> Object" where
  "leaf i = Object i OBJECT plainAttrs [] [] []"

definition branch :: "ident \<Rightarrow> Object list \<Rightarrow> Object" where
  "branch i cs = Object i OBJECT plainAttrs [] [] cs"

definition wrapper :: "ident \<Rightarrow> Object list \<Rightarrow> Object" where
  "wrapper i cs = Object i OBJECT (plainAttrs\<lparr>isEditorialElement := True\<rparr>) [] [] cs"

definition startState :: "unit ProcState" where
  "startState = \<lparr>returnCode = FUNCTOR_CONTINUE, endReturnCode = FUNCTOR_CONTINUE, functorParams = (),
     currentScore = None, trace = []\<rparr>"

definition siblingsOn :: "ident \<Rightarrow> unit Functor" where
  "siblingsOn i = \<lparr>obj_fpt = (\<lambda>obj p. (if m_id obj = i then FUNCTOR_SIBLINGS else FUNCTOR_CONTINUE, p)),
     m_visibleOnly = True\<rparr>"

definition siblingsOnM :: "ident \<Rightarrow> unit MutableFunctor" where
  "siblingsOnM i = \<lparr>VisitObject = (\<lambda>obj p. (if m_id obj = i then FUNCTOR_SIBLINGS else FUNCTOR_CONTINUE, p)),
     VisitObjectEnd = (\<lambda>obj p. (FUNCTOR_CONTINUE, p)), ImplementsEndInterface = True,
     VisibleOnly = True, GetDirection = FORWARD, GetFilters = None\<rparr>"


definition stopOn :: "ident \<Rightarrow> unit Functor" where
  "stopOn i = \<lparr>obj_fpt = (\<lambda>obj p. (if m_id obj = i then FUNCTOR_STOP else FUNCTOR_CONTINUE, p)),
     m_visibleOnly = True\<rparr>"

definition stopOnM :: "ident \<Rightarrow> unit MutableFunctor" where
  "stopOnM i = \<lparr>VisitObject = (\<lambda>obj p. (if m_id obj = i then FUNCTOR_STOP else FUNCTOR_CONTINUE, p)),
     VisitObjectEnd = (\<lambda>obj p. (FUNCTOR_CONTINUE, p)), ImplementsEndInterface = True,
     VisibleOnly = True, GetDirection = FORWARD, GetFilters = None\<rparr>"

definition continueAlways :: "unit Functor" where
  "continueAlways = \<lparr>obj_fpt = (\<lambda>obj p. (FUNCTOR_CONTINUE, p)), m_visibleOnly = True\<rparr>"

definition siblingsOn2 :: "Object \<Rightarrow> FunctorCode" where
  "siblingsOn2 obj = (if m_id obj = 2 then FUNCTOR_SIBLINGS else FUNCTOR_CONTINUE)"

definition hiddenWrapper :: "ident \<Rightarrow> Object list \<Rightarrow> Object" where
  "hiddenWrapper i cs =
     Object i OBJECT (plainAttrs\<lparr>isEditorialElement := True, m_visibility := Hidden\<rparr>) [] [] cs"

definition textLeaf :: "ident \<Rightarrow> Object" where
  "textLeaf i = Object i TEXT plainAttrs [] [] []"


lemmas example_defs = startState_def branch_def leaf_def wrapper_def plainAttrs_def stopOn_def
  continueAlways_def siblingsOn_def

lemmas walk_defs = Process_eq entered_def budget_def descend_def leave_def Call_def CallEnd_def
  UpdateDocumentScore_def SkipChildren_def FiltersApply_def Is_def IsEditorialElement_def
  IsSystemElement_def Let_def

lemmas walkM_defs = ProcessM_eq enteredM_def budget_def descendM_def leaveM_def Accept_def
  AcceptEnd_def GetCode_def SetCode_def UpdateDocumentScore_def SkipChildren_def FiltersApply_def
  Is_def IsEditorialElement_def IsSystemElement_def Let_def



section \<open>Control codes\<close>

text \<open>
  Claim C1. When the visitor returns \<^verbatim>\<open>FUNCTOR_SIBLINGS\<close> on a node, the call of
  \<^verbatim>\<open>Process\<close> on that node logs this one visit and nothing else (no descendant is
  visited, no end call is made), it hands back the control code \<^verbatim>\<open>FUNCTOR_CONTINUE\<close>,
  and in the loop of the parent the very next event is the visit of the next sibling. This
  holds for the function-pointer overload and for the functor-object overload.
\<close>

theorem C1_siblings_skips_subtree:
  assumes "returnCode s \<noteq> FUNCTOR_STOP"
    and "FiltersApply fl this" and "FiltersApply fl sibling"
    and "fst (obj_fpt f this (functorParams s)) = FUNCTOR_SIBLINGS"
    and "FiltersApply (GetFilters mf) this" and "FiltersApply (GetFilters mf) sibling"
    and "fst (VisitObject mf this (functorParams s)) = FUNCTOR_SIBLINGS"
  shows "(trace (Process f ef fl d dir False this s) = trace s @ [Visit (m_id this) FUNCTOR_SIBLINGS]
      \<and> returnCode (Process f ef fl d dir False this s) = FUNCTOR_CONTINUE
      \<and> (\<exists>c evs. trace (ProcessChildren f ef fl d dir (this # sibling # rest) s) =
            trace s @ Visit (m_id this) FUNCTOR_SIBLINGS # Visit (m_id sibling) c # evs))
    \<and> (trace (ProcessM mf d False this s) = trace s @ [Visit (m_id this) FUNCTOR_SIBLINGS]
      \<and> GetCode (ProcessM mf d False this s) = FUNCTOR_CONTINUE
      \<and> (\<exists>c evs. trace (ProcessChildrenM mf d (this # sibling # rest) s) =
            trace s @ Visit (m_id this) FUNCTOR_SIBLINGS # Visit (m_id sibling) c # evs))"
proof -
  let ?s' = "Process f ef fl d dir False this s"
  have eq: "?s' = (Call f this (UpdateDocumentScore dir this s))\<lparr>returnCode := FUNCTOR_CONTINUE\<rparr>"
    using assms(1,4) by (rule Process_SIBLINGS)
  have tr: "trace ?s' = trace s @ [Visit (m_id this) FUNCTOR_SIBLINGS]"
    using assms(4) by (simp add: eq)
  have rc: "returnCode ?s' = FUNCTOR_CONTINUE"
    by (simp add: eq)
  obtain evs1 where e1: "trace (Process f ef fl d dir False sibling ?s') =
      trace ?s' @ Visit (m_id sibling) (fst (obj_fpt f sibling (functorParams ?s'))) # evs1"
    using trace_Process_first [of ?s' f ef fl d dir sibling] rc by auto
  obtain evs2 where e2: "trace (ProcessChildren f ef fl d dir rest (Process f ef fl d dir False sibling ?s')) =
      trace (Process f ef fl d dir False sibling ?s') @ evs2"
    using trace_extends(2) by blast
  have next_sibling: "\<exists>c evs. trace (ProcessChildren f ef fl d dir (this # sibling # rest) s) =
      trace s @ Visit (m_id this) FUNCTOR_SIBLINGS # Visit (m_id sibling) c # evs"
    using assms(2,3) e1 e2 tr by simp
  let ?m' = "ProcessM mf d False this s"
  have gc: "GetCode s \<noteq> FUNCTOR_STOP" using assms(1) by (simp add: GetCode_def)
  have eqM: "?m' = SetCode FUNCTOR_CONTINUE (snd (Accept mf this (UpdateDocumentScore (GetDirection mf) this s)))"
    using gc assms(7) by (rule ProcessM_SIBLINGS)
  have trM: "trace ?m' = trace s @ [Visit (m_id this) FUNCTOR_SIBLINGS]"
    using assms(7) by (simp add: eqM SetCode_def Accept_def Let_def)
  have rcM: "GetCode ?m' = FUNCTOR_CONTINUE"
    by (simp add: eqM SetCode_def GetCode_def)
  obtain evs3 where e3: "trace (ProcessM mf d False sibling ?m') =
      trace ?m' @ Visit (m_id sibling) (fst (VisitObject mf sibling (functorParams ?m'))) # evs3"
    using traceM_Process_first [of ?m' mf d sibling] rcM by auto
  obtain evs4 where e4: "trace (ProcessChildrenM mf d rest (ProcessM mf d False sibling ?m')) =
      trace (ProcessM mf d False sibling ?m') @ evs4"
    using traceM_extends(2) by blast
  have next_siblingM: "\<exists>c evs. trace (ProcessChildrenM mf d (this # sibling # rest) s) =
      trace s @ Visit (m_id this) FUNCTOR_SIBLINGS # Visit (m_id sibling) c # evs"
    using assms(5,6) e3 e4 trM by simp
  show ?thesis
    using tr rc next_sibling trM rcM next_siblingM by blast
qed

theorem C1_siblings_skips_subtree_witness:
  "trace (Process (siblingsOn 1) None None (- 1) FORWARD False (branch 1 [leaf 2]) startState) =
      [Visit 1 FUNCTOR_SIBLINGS]
   \<and> returnCode (Process (siblingsOn 1) None None (- 1) FORWARD False (branch 1 [leaf 2]) startState) =
      FUNCTOR_CONTINUE
   \<and> (\<exists>c evs. trace (ProcessChildren (siblingsOn 1) None None (- 1) FORWARD
        [branch 1 [leaf 2], leaf 3] startState) = Visit 1 FUNCTOR_SIBLINGS # Visit 3 c # evs)
   \<and> trace (ProcessM (siblingsOnM 1) (- 1) False (branch 1 [leaf 2]) startState) =
      [Visit 1 FUNCTOR_SIBLINGS]
   \<and> GetCode (ProcessM (siblingsOnM 1) (- 1) False (branch 1 [leaf 2]) startState) = FUNCTOR_CONTINUE
   \<and> (\<exists>c evs. trace (ProcessChildrenM (siblingsOnM 1) (- 1) [branch 1 [leaf 2], leaf 3] startState) =
        Visit 1 FUNCTOR_SIBLINGS # Visit 3 c # evs)"
  using C1_siblings_skips_subtree [of startState None "branch 1 [leaf 2]" "leaf 3" "siblingsOn 1"
      "siblingsOnM 1" None "- 1" FORWARD "[]"]
  by (simp add: startState_def siblingsOn_def siblingsOnM_def branch_def leaf_def FiltersApply_def)

subsection \<open>Stopping\<close>

text \<open>
  Helpers to speak about a log: the end calls, the entry visits that returned
  \<^verbatim>\<open>FUNCTOR_STOP\<close>, the identities visited, and the states reachable from a state
  by end calls alone.
\<close>

fun isEnd :: "Event \<Rightarrow> bool" where
  "isEnd (VisitEnd i c) = True"
| "isEnd (Visit i c) = False"

fun isStopVisit :: "Event \<Rightarrow> bool" where
  "isStopVisit (Visit i c) = (c = FUNCTOR_STOP)"
| "isStopVisit (VisitEnd i c) = False"

inductive endCalls :: "'p Functor option \<Rightarrow> 'p ProcState \<Rightarrow> 'p ProcState \<Rightarrow> bool"
  for ef :: "'p Functor option" and s :: "'p ProcState"
where
  endCalls_none: "endCalls ef s s"
| endCalls_more: "endCalls ef s s' \<Longrightarrow> ef = Some e \<Longrightarrow> endCalls ef s (CallEnd e n s')"

lemma endCalls_trace:
  "endCalls ef s s' \<Longrightarrow> \<exists>evs. trace s' = trace s @ evs \<and> list_all isEnd evs"
  by (induction rule: endCalls.induct) auto

lemma endCalls_returnCode: "endCalls ef s s' \<Longrightarrow> returnCode s' = returnCode s"
  by (induction rule: endCalls.induct) auto

lemma endCalls_None: "endCalls None s s' \<Longrightarrow> s' = s"
  by (induction rule: endCalls.induct) auto

lemma first_stop_unique:
  assumes "pre @ Visit x FUNCTOR_STOP # post = pre' @ Visit x' FUNCTOR_STOP # post'"
    and "list_all (\<lambda>e. \<not> isStopVisit e) pre'" and "list_all (\<lambda>e. \<not> isStopVisit e) post'"
  shows "pre = pre' \<and> x = x' \<and> post = post'"
  using assms
proof (induction pre arbitrary: pre')
  case Nil
  then show ?case by (cases pre') auto
next
  case (Cons a pre)
  then show ?case by (cases pre') auto
qed

lemma isEnd_not_stop: "list_all isEnd evs \<Longrightarrow> list_all (\<lambda>e. \<not> isStopVisit e) evs"
  by (induction evs) (auto elim: isEnd.elims)

definition stopInv :: "'p Functor \<Rightarrow> 'p Functor option \<Rightarrow> 'p ProcState \<Rightarrow> bool" where
  "stopInv f ef s' =
     ((returnCode s' \<noteq> FUNCTOR_STOP \<and> list_all (\<lambda>e. \<not> isStopVisit e) (trace s')) \<or>
      (\<exists>n sb. returnCode sb \<noteq> FUNCTOR_STOP \<and> list_all (\<lambda>e. \<not> isStopVisit e) (trace sb) \<and>
         returnCode (Call f n sb) = FUNCTOR_STOP \<and> endCalls ef (Call f n sb) s'))"

lemma stopInv_Process:
  assumes "stopInv f ef s"
  shows "stopInv f ef (Process f ef fl d dir sk this s)"
  using assms
proof (rule Process_invariant(1) [where I = "stopInv f ef", rotated -1])
  fix n s assume "stopInv f ef s" "returnCode s \<noteq> FUNCTOR_STOP"
  then show "stopInv f ef (UpdateDocumentScore dir n s)"
    by (auto simp: stopInv_def dest: endCalls_returnCode)
next
  fix n s assume a: "stopInv f ef s" "returnCode s \<noteq> FUNCTOR_STOP"
  then have ns: "list_all (\<lambda>e. \<not> isStopVisit e) (trace s)"
    by (auto simp: stopInv_def dest: endCalls_returnCode)
  show "stopInv f ef (Call f n s)"
  proof (cases "returnCode (Call f n s) = FUNCTOR_STOP")
    case True
    then show ?thesis
      unfolding stopInv_def using a(2) ns endCalls_none by blast
  next
    case False
    then show ?thesis using ns by (simp add: stopInv_def)
  qed
next
  fix s assume "stopInv f ef s" "returnCode s = FUNCTOR_SIBLINGS"
  then show "stopInv f ef (s\<lparr>returnCode := FUNCTOR_CONTINUE\<rparr>)"
    by (auto simp: stopInv_def dest: endCalls_returnCode)
next
  fix e n s assume a: "ef = Some e" "stopInv f ef s"
  show "stopInv f ef (CallEnd e n s)"
    using a(2) unfolding stopInv_def
  proof (elim disjE exE conjE)
    assume "returnCode s \<noteq> FUNCTOR_STOP" "list_all (\<lambda>e. \<not> isStopVisit e) (trace s)"
    then show "(returnCode (CallEnd e n s) \<noteq> FUNCTOR_STOP \<and>
         list_all (\<lambda>e. \<not> isStopVisit e) (trace (CallEnd e n s))) \<or>
        (\<exists>na sb. returnCode sb \<noteq> FUNCTOR_STOP \<and> list_all (\<lambda>e. \<not> isStopVisit e) (trace sb) \<and>
           returnCode (Call f na sb) = FUNCTOR_STOP \<and> endCalls ef (Call f na sb) (CallEnd e n s))"
      by simp
  next
    fix na sb
    assume "returnCode sb \<noteq> FUNCTOR_STOP" "list_all (\<lambda>e. \<not> isStopVisit e) (trace sb)"
      "returnCode (Call f na sb) = FUNCTOR_STOP" "endCalls ef (Call f na sb) s"
    then show "(returnCode (CallEnd e n s) \<noteq> FUNCTOR_STOP \<and>
         list_all (\<lambda>e. \<not> isStopVisit e) (trace (CallEnd e n s))) \<or>
        (\<exists>na sb. returnCode sb \<noteq> FUNCTOR_STOP \<and> list_all (\<lambda>e. \<not> isStopVisit e) (trace sb) \<and>
           returnCode (Call f na sb) = FUNCTOR_STOP \<and> endCalls ef (Call f na sb) (CallEnd e n s))"
      using a(1) endCalls_more by blast
  qed
qed


fun visits :: "Event list \<Rightarrow> ident list" where
  "visits [] = []"
| "visits (Visit i c # es) = i # visits es"
| "visits (VisitEnd i c # es) = visits es"

fun endOf :: "ident list \<Rightarrow> Event \<Rightarrow> bool" where
  "endOf ids (VisitEnd i c) = (i \<in> set ids)"
| "endOf ids (Visit i c) = False"

fun endsVisited :: "ident set \<Rightarrow> Event list \<Rightarrow> bool" where
  "endsVisited S [] = True"
| "endsVisited S (Visit i c # es) = endsVisited (insert i S) es"
| "endsVisited S (VisitEnd i c # es) = (i \<in> S \<and> endsVisited S es)"

lemma visits_append [simp]: "visits (a @ b) = visits a @ visits b"
  by (induction a rule: visits.induct) auto

lemma endsVisited_mono: "endsVisited S es \<Longrightarrow> S \<subseteq> T \<Longrightarrow> endsVisited T es"
proof (induction S es arbitrary: T rule: endsVisited.induct)
  case (2 S i c es)
  have "insert i S \<subseteq> insert i T" using "2.prems"(2) by auto
  then show ?case using "2.IH" "2.prems"(1) by simp
qed auto

lemma endsVisited_append:
  "endsVisited S (a @ b) = (endsVisited S a \<and> endsVisited (S \<union> set (visits a)) b)"
  by (induction S a rule: endsVisited.induct) auto

lemma endsVisited_ends:
  "endsVisited S es \<Longrightarrow> list_all isEnd es \<Longrightarrow> set ids = S \<Longrightarrow> list_all (endOf ids) es"
  by (induction S es rule: endsVisited.induct) auto

lemma ends_visited:
  "\<exists>new. trace (Process f ef fl d dir sk this s) = trace s @ new \<and> endsVisited S new"
  "\<exists>new. trace (ProcessChildren f ef fl d dir cs s) = trace s @ new \<and> endsVisited S new"
proof (induction f ef fl d dir sk this s and f ef fl d dir cs s arbitrary: S and S
    rule: Process_ProcessChildren.induct)
  case (1 f ef fl d dir sk this s)
  define s2 where "s2 = entered f dir sk this s"
  define S2 where "S2 = (if sk then S else insert (m_id this) S)"
  have t2: "\<exists>new. trace s2 = trace s @ new \<and> endsVisited S new \<and> S \<union> set (visits new) = S2"
    by (auto simp: s2_def S2_def entered_def)
  show ?case
  proof (cases "returnCode s \<noteq> FUNCTOR_STOP \<and> returnCode s2 \<noteq> FUNCTOR_SIBLINGS \<and> budget this d \<noteq> 0")
    case False
    then show ?thesis
      using t2 unfolding s2_def by (auto simp: Process_eq)
  next
    case True
    have s2': "s2 = (if \<not> sk then Call f this (UpdateDocumentScore dir this s)
        else UpdateDocumentScore dir this s)"
      by (simp add: s2_def entered_def)
    have b: "budget this d = (if IsEditorialElement this then d + 1 else d)"
      by (simp add: budget_def)
    have t3: "\<exists>new. trace (descend f ef fl (budget this d - 1) dir this s2) = trace s2 @ new
        \<and> endsVisited S2 new"
    proof (cases "SkipChildren this (m_visibleOnly f)")
      case True
      then show ?thesis by (simp add: descend_def)
    next
      case nskip: False
      show ?thesis
      proof (cases "dir = BACKWARD")
        case bw: True
        show ?thesis
          using "1.IH"(1) [OF _ refl s2' _ b _ refl nskip bw, of S2] True nskip bw
          by (simp add: descend_def)
      next
        case fw: False
        show ?thesis
          using "1.IH"(2) [OF _ refl s2' _ b _ refl nskip fw, of S2] True nskip fw
          by (simp add: descend_def)
      qed
    qed
    obtain e2 where e2: "trace s2 = trace s @ e2" "endsVisited S e2" "S \<union> set (visits e2) = S2"
      using t2 by blast
    obtain e3 where e3: "trace (descend f ef fl (budget this d - 1) dir this s2) = trace s2 @ e3"
        "endsVisited S2 e3"
      using t3 by blast
    have t4: "\<exists>new. trace (leave ef sk this s3) = trace s3 @ new \<and> endsVisited (S2 \<union> T) new" for s3 T
      by (cases ef) (auto simp: leave_def S2_def)
    obtain e4 where e4: "trace (leave ef sk this (descend f ef fl (budget this d - 1) dir this s2)) =
        trace (descend f ef fl (budget this d - 1) dir this s2) @ e4"
        "endsVisited (S2 \<union> set (visits e3)) e4"
      using t4 by blast
    have "endsVisited S (e2 @ e3 @ e4)"
      using e2 e3 e4 by (simp add: endsVisited_append Un_assoc)
    then show ?thesis
      using True e2(1) e3(1) e4(1) unfolding s2_def by (simp add: Process_eq)
  qed
next
  case (2 f ef fl d dir s)
  then show ?case by simp
next
  case (3 f ef fl d dir child rest s)
  show ?case
  proof (cases "FiltersApply fl child")
    case True
    obtain e1 where e1: "trace (Process f ef fl d dir False child s) = trace s @ e1" "endsVisited S e1"
      using "3.IH"(1) [OF True, of S] by blast
    obtain e2 where e2: "trace (ProcessChildren f ef fl d dir rest (Process f ef fl d dir False child s)) =
        trace (Process f ef fl d dir False child s) @ e2" "endsVisited (S \<union> set (visits e1)) e2"
      using "3.IH"(2) [of "S \<union> set (visits e1)"] True by auto
    have "endsVisited S (e1 @ e2)"
      using e1 e2 by (simp add: endsVisited_append)
    then show ?thesis using True e1(1) e2(1) by simp
  next
    case False
    then show ?thesis using "3.IH"(2) [of S] by simp
  qed
qed


text \<open>
  The function-pointer overload. Take a walk that starts with a code other than
  \<^verbatim>\<open>FUNCTOR_STOP\<close> and a log without a stopping visit, and let the visitor return
  \<^verbatim>\<open>FUNCTOR_STOP\<close> on \<open>x\<close>, so that the final log is \<open>pre\<close>, the visit of \<open>x\<close>,
  \<open>post\<close>. Then \<open>post\<close> holds no entry visit: it consists of end calls on objects entered
  before or at \<open>x\<close> (the unwinding of the call stack). The final state is reached from the
  state right after the visit of \<open>x\<close> by these end calls alone, so everything done up to
  \<open>x\<close> is kept, the code is still \<^verbatim>\<open>FUNCTOR_STOP\<close> at the end, and without an end
  functor the log ends with the visit of \<open>x\<close>. \<^verbatim>\<open>Process\<close> is a total function:
  the walk returns normally.
\<close>

theorem Process_stop_aborts:
  assumes "returnCode s \<noteq> FUNCTOR_STOP"
    and "list_all (\<lambda>e. \<not> isStopVisit e) (trace s)"
    and "trace (Process f ef fl d dir sk root s) = pre @ Visit x FUNCTOR_STOP # post"
  shows "list_all (endOf (visits (pre @ [Visit x FUNCTOR_STOP]))) post \<and>
    (\<exists>sX. trace sX = pre @ [Visit x FUNCTOR_STOP] \<and> returnCode sX = FUNCTOR_STOP \<and>
       endCalls ef sX (Process f ef fl d dir sk root s)) \<and>
    returnCode (Process f ef fl d dir sk root s) = FUNCTOR_STOP \<and>
    (ef = None \<longrightarrow> trace (Process f ef fl d dir sk root s) = pre @ [Visit x FUNCTOR_STOP])"
proof -
  let ?s' = "Process f ef fl d dir sk root s"
  have "stopInv f ef s" using assms(1,2) by (simp add: stopInv_def)
  then have inv: "stopInv f ef ?s'" by (rule stopInv_Process)
  have "\<not> list_all (\<lambda>e. \<not> isStopVisit e) (trace ?s')"
    by (simp add: assms(3))
  then obtain n sb where sb: "returnCode sb \<noteq> FUNCTOR_STOP"
      "list_all (\<lambda>e. \<not> isStopVisit e) (trace sb)"
      "returnCode (Call f n sb) = FUNCTOR_STOP" "endCalls ef (Call f n sb) ?s'"
    using inv unfolding stopInv_def by blast
  obtain evs where evs: "trace ?s' = trace (Call f n sb) @ evs" "list_all isEnd evs"
    using endCalls_trace [OF sb(4)] by blast
  have "pre @ Visit x FUNCTOR_STOP # post = trace sb @ Visit (m_id n) FUNCTOR_STOP # evs"
    using evs(1) sb(3) assms(3) by simp
  then have u: "pre = trace sb \<and> x = m_id n \<and> post = evs"
    using first_stop_unique sb(2) evs(2) isEnd_not_stop by blast
  have t: "trace (Call f n sb) = pre @ [Visit x FUNCTOR_STOP]"
    using u sb(3) by simp
  have rc: "returnCode ?s' = FUNCTOR_STOP"
    using endCalls_returnCode [OF sb(4)] sb(3) by simp
  have none: "ef = None \<longrightarrow> trace ?s' = pre @ [Visit x FUNCTOR_STOP]"
    using endCalls_None sb(4) t by metis
  obtain new where new: "trace ?s' = trace s @ new" "endsVisited (set (visits (trace s))) new"
    using ends_visited(1) by blast
  have "trace s @ new = (pre @ [Visit x FUNCTOR_STOP]) @ post"
    using new(1) assms(3) by simp
  then consider us where "trace s = (pre @ [Visit x FUNCTOR_STOP]) @ us" "us @ new = post"
    | us where "trace s @ us = pre @ [Visit x FUNCTOR_STOP]" "new = us @ post"
    unfolding append_eq_append_conv2 by blast
  then obtain mid where mid: "pre @ [Visit x FUNCTOR_STOP] = trace s @ mid" "new = mid @ post"
  proof cases
    case 1
    then have False using assms(2) by simp
    then show ?thesis ..
  next
    case 2
    show ?thesis using that [of us] 2 by simp
  qed
  have "endsVisited (set (visits (trace s)) \<union> set (visits mid)) post"
    using new(2) mid(2) by (simp add: endsVisited_append)
  then have "list_all (endOf (visits (pre @ [Visit x FUNCTOR_STOP]))) post"
    using u evs(2) mid(1) by (intro endsVisited_ends) auto
  then show ?thesis
    using t sb(3,4) rc none by blast
qed

lemma Process_stop_trace:
  "trace (Process (stopOn 2) (Some continueAlways) None (- 1) FORWARD False
      (branch 1 [branch 2 [leaf 3], leaf 4]) startState) =
    [Visit 1 FUNCTOR_CONTINUE] @ Visit 2 FUNCTOR_STOP #
      [VisitEnd 2 FUNCTOR_CONTINUE, VisitEnd 1 FUNCTOR_CONTINUE]"
  by (simp add: example_defs walk_defs)

theorem Process_stop_aborts_example:
  "list_all (endOf (visits ([Visit 1 FUNCTOR_CONTINUE] @ [Visit 2 FUNCTOR_STOP])))
      [VisitEnd 2 FUNCTOR_CONTINUE, VisitEnd 1 FUNCTOR_CONTINUE] \<and>
    (\<exists>sX. trace sX = [Visit 1 FUNCTOR_CONTINUE] @ [Visit 2 FUNCTOR_STOP] \<and>
       returnCode sX = FUNCTOR_STOP \<and>
       endCalls (Some continueAlways) sX (Process (stopOn 2) (Some continueAlways) None (- 1) FORWARD False
         (branch 1 [branch 2 [leaf 3], leaf 4]) startState)) \<and>
    returnCode (Process (stopOn 2) (Some continueAlways) None (- 1) FORWARD False
      (branch 1 [branch 2 [leaf 3], leaf 4]) startState) = FUNCTOR_STOP"
  using Process_stop_aborts [of startState "stopOn 2" "Some continueAlways" None "- 1" FORWARD False
      "branch 1 [branch 2 [leaf 3], leaf 4]" "[Visit 1 FUNCTOR_CONTINUE]" 2
      "[VisitEnd 2 FUNCTOR_CONTINUE, VisitEnd 1 FUNCTOR_CONTINUE]"] Process_stop_trace
  by (simp add: startState_def)

text \<open>
  Claim C2. After the visitor has returned \<^verbatim>\<open>FUNCTOR_STOP\<close> on a node, no node
  after it is visited. The function-pointer overload keeps this for a stop returned by the
  entry functor (the theorem above): the end functor stores its code in itself, where it is
  never read. The functor-object overload stores the code of the
  end visit with \<^verbatim>\<open>SetCode\<close> in the one code of the functor. So when the functor
  implements the end interface and its end visit of the stopping node answers
  \<^verbatim>\<open>FUNCTOR_CONTINUE\<close>, the stop is overwritten while the stack unwinds and the
  loop of the parent goes on with the next sibling. On a root 1 with the children 2 and 3 and
  a visitor that stops on 2, the functor-object overload visits 3 after the stop; the
  function-pointer overload, with the same visitor and the same end visits, does not.
\<close>

theorem C2_end_visit_overwrites_STOP:
  "trace (ProcessM (stopOnM 2) (- 1) False (branch 1 [leaf 2, leaf 3]) startState) =
     [Visit 1 FUNCTOR_CONTINUE, Visit 2 FUNCTOR_STOP, VisitEnd 2 FUNCTOR_CONTINUE,
      Visit 3 FUNCTOR_CONTINUE, VisitEnd 3 FUNCTOR_CONTINUE, VisitEnd 1 FUNCTOR_CONTINUE] \<and>
   trace (Process (stopOn 2) (Some continueAlways) None (- 1) FORWARD False
       (branch 1 [leaf 2, leaf 3]) startState) =
     [Visit 1 FUNCTOR_CONTINUE, Visit 2 FUNCTOR_STOP, VisitEnd 2 FUNCTOR_CONTINUE,
      VisitEnd 1 FUNCTOR_CONTINUE]"
  by (simp add: example_defs stopOnM_def walkM_defs walk_defs)

text \<open>
  The other side of the same design: in the function-pointer overload a
  \<^verbatim>\<open>FUNCTOR_STOP\<close> returned by the end functor stops nothing, since
  \<^verbatim>\<open>Process\<close> tests the code of the entry functor only.
\<close>

lemma Process_end_stop_ignored:
  "trace (Process continueAlways (Some (stopOn 2)) None (- 1) FORWARD False
       (branch 1 [leaf 2, leaf 3]) startState) =
     [Visit 1 FUNCTOR_CONTINUE, Visit 2 FUNCTOR_CONTINUE, VisitEnd 2 FUNCTOR_STOP,
      Visit 3 FUNCTOR_CONTINUE, VisitEnd 3 FUNCTOR_CONTINUE, VisitEnd 1 FUNCTOR_CONTINUE]"
  by (simp add: example_defs walk_defs)

section \<open>The order of the visits\<close>

text \<open>
  When the code the visitor returns depends on the object alone (\<open>g\<close>) and is never
  \<^verbatim>\<open>FUNCTOR_STOP\<close>, the objects a walk visits, in order, are a function of the tree:
  \<open>visitOrder\<close>. It is a specification device, related to \<^verbatim>\<open>Process\<close> by
  \<open>visits_walk\<close>.
\<close>

lemma size_child: "c \<in> set (m_children this) \<Longrightarrow> size c < size this"
  using size_m_children [of this] size_list_estimation' [of c "m_children this" "size c" size]
  by simp

function visitOrder :: "(Object \<Rightarrow> FunctorCode) \<Rightarrow> bool \<Rightarrow> Filters \<Rightarrow> int \<Rightarrow> Direction \<Rightarrow> Object
    \<Rightarrow> Object list" where
  "visitOrder g vo fl d dir this =
     this #
       (if g this = FUNCTOR_SIBLINGS \<or> budget this d = 0 \<or> SkipChildren this vo then []
        else concat (map (visitOrder g vo fl (budget this d - 1) dir)
               (filter (FiltersApply fl)
                  (if dir = BACKWARD then rev (m_children this) else m_children this))))"
  by pat_completeness auto

termination
  by (relation "measure (\<lambda>(g, vo, fl, d, dir, this). size this)")
    (auto simp: size_child split: if_splits)

declare visitOrder.simps [simp del]

lemma visits_walk:
  assumes "\<And>n p. fst (obj_fpt f n p) = g n" and "\<And>n. g n \<noteq> FUNCTOR_STOP"
  shows "\<not> sk \<Longrightarrow> returnCode s \<noteq> FUNCTOR_STOP \<Longrightarrow>
      visits (trace (Process f ef fl d dir sk this s)) =
        visits (trace s) @ map m_id (visitOrder g (m_visibleOnly f) fl d dir this)
      \<and> returnCode (Process f ef fl d dir sk this s) \<noteq> FUNCTOR_STOP"
    and "returnCode s \<noteq> FUNCTOR_STOP \<Longrightarrow>
      visits (trace (ProcessChildren f ef fl d dir cs s)) =
        visits (trace s) @
          map m_id (concat (map (visitOrder g (m_visibleOnly f) fl d dir) (filter (FiltersApply fl) cs)))
      \<and> returnCode (ProcessChildren f ef fl d dir cs s) \<noteq> FUNCTOR_STOP"
  using assms
proof (induction f ef fl d dir sk this s and f ef fl d dir cs s
    rule: Process_ProcessChildren.induct)
  case (1 f ef fl d dir sk this s)
  have codes: "\<And>n p. fst (obj_fpt f n p) = g n" and nostop: "\<And>n. g n \<noteq> FUNCTOR_STOP"
    and sk: "\<not> sk" and ns: "returnCode s \<noteq> FUNCTOR_STOP"
    using "1.prems" by blast+
  define s2 where "s2 = entered f dir sk this s"
  have v2: "visits (trace s2) = visits (trace s) @ [m_id this]"
    using sk by (simp add: s2_def entered_def)
  have r2: "returnCode s2 = g this"
    using sk codes by (simp add: s2_def entered_def)
  show ?case
  proof (cases "g this = FUNCTOR_SIBLINGS \<or> budget this d = 0")
    case True
    then show ?thesis
      using ns v2 r2 nostop [of this] unfolding s2_def
      by (auto simp: Process_eq visitOrder.simps [of g _ fl d _ this])
  next
    case False
    have s2': "s2 = (if \<not> sk then Call f this (UpdateDocumentScore dir this s)
        else UpdateDocumentScore dir this s)"
      by (simp add: s2_def entered_def)
    have b: "budget this d = (if IsEditorialElement this then d + 1 else d)"
      by (simp add: budget_def)
    have nsib: "returnCode s2 \<noteq> FUNCTOR_SIBLINGS" and nz: "budget this d \<noteq> 0"
      using False r2 by auto
    have ns2: "returnCode s2 \<noteq> FUNCTOR_STOP" using r2 nostop by simp
    define s3 where "s3 = descend f ef fl (budget this d - 1) dir this s2"
    have v3: "visits (trace s3) = visits (trace s) @ map m_id (visitOrder g (m_visibleOnly f) fl d dir this)
        \<and> returnCode s3 \<noteq> FUNCTOR_STOP"
    proof (cases "SkipChildren this (m_visibleOnly f)")
      case True
      then show ?thesis
        using v2 ns2 by (simp add: s3_def descend_def visitOrder.simps [of g _ fl d _ this])
    next
      case nskip: False
      show ?thesis
      proof (cases "dir = BACKWARD")
        case bw: True
        show ?thesis
          using "1.IH"(1) [OF ns refl s2' nsib b nz refl nskip bw ns2] codes nostop
            False nskip bw v2
          by (simp add: s3_def descend_def visitOrder.simps [of g _ fl d _ this])
      next
        case fw: False
        show ?thesis
          using "1.IH"(2) [OF ns refl s2' nsib b nz refl nskip fw ns2] codes nostop
            False nskip fw v2
          by (simp add: s3_def descend_def visitOrder.simps [of g _ fl d _ this])
      qed
    qed
    have "visits (trace (leave ef sk this s3)) = visits (trace s3)
        \<and> returnCode (leave ef sk this s3) = returnCode s3"
      by (cases ef) (simp_all add: leave_def)
    then show ?thesis
      using v3 ns nsib nz unfolding s3_def s2_def by (simp add: Process_eq)
  qed
next
  case (2 f ef fl d dir s)
  then show ?case by simp
next
  case (3 f ef fl d dir child rest s)
  have codes: "\<And>n p. fst (obj_fpt f n p) = g n" and nostop: "\<And>n. g n \<noteq> FUNCTOR_STOP"
    and ns: "returnCode s \<noteq> FUNCTOR_STOP"
    using "3.prems" by blast+
  show ?case
  proof (cases "FiltersApply fl child")
    case True
    have a: "visits (trace (Process f ef fl d dir False child s)) =
        visits (trace s) @ map m_id (visitOrder g (m_visibleOnly f) fl d dir child)
        \<and> returnCode (Process f ef fl d dir False child s) \<noteq> FUNCTOR_STOP"
      using "3.IH"(1) [OF True _ ns] codes nostop by blast
    then show ?thesis
      using "3.IH"(2) codes nostop True by simp
  next
    case False
    then show ?thesis
      using "3.IH"(2) codes nostop ns by simp
  qed
qed

subsection \<open>Nodes, paths and ancestors of a tree\<close>

text \<open>
  \<open>allNodes\<close> lists a subtree in document order. A path is the list of child indices from
  the root of a walk down to a node; \<open>ancestorsOn\<close> lists the objects passed on the way, the
  root first and the node itself left out, and \<open>nonWrapperAncestors\<close> counts those among
  them that are not editorial elements. A walk is \<open>unpruned\<close> on a tree when no filter
  rejects a node of the tree and no node has its children skipped for visibility.
\<close>

fun allNodes :: "Object \<Rightarrow> Object list" where
  "allNodes (Object i c a sd csd cs) = Object i c a sd csd cs # concat (map allNodes cs)"

fun nodeAt :: "Object \<Rightarrow> nat list \<Rightarrow> Object option" where
  "nodeAt this [] = Some this"
| "nodeAt this (i # p) =
     (if i < length (m_children this) then nodeAt (m_children this ! i) p else None)"

fun ancestorsOn :: "Object \<Rightarrow> nat list \<Rightarrow> Object list" where
  "ancestorsOn this [] = []"
| "ancestorsOn this (i # p) =
     this # (if i < length (m_children this) then ancestorsOn (m_children this ! i) p else [])"

definition nonWrapperAncestors :: "Object \<Rightarrow> nat list \<Rightarrow> nat" where
  "nonWrapperAncestors root p = length (filter (\<lambda>a. \<not> IsEditorialElement a) (ancestorsOn root p))"

definition unpruned :: "bool \<Rightarrow> Filters \<Rightarrow> Object \<Rightarrow> bool" where
  "unpruned vo fl root = list_all (\<lambda>n. FiltersApply fl n \<and> \<not> SkipChildren n vo) (allNodes root)"

lemma allNodes_eq: "allNodes this = this # concat (map allNodes (m_children this))"
  by (cases this) simp

lemma allNodes_child: "c \<in> set (m_children this) \<Longrightarrow> set (allNodes c) \<subseteq> set (allNodes this)"
  by (subst (2) allNodes_eq) auto

lemma unpruned_child: "unpruned vo fl this \<Longrightarrow> c \<in> set (m_children this) \<Longrightarrow> unpruned vo fl c"
  using allNodes_child [of c this] by (auto simp: unpruned_def list_all_iff)

lemma unpruned_self: "unpruned vo fl this \<Longrightarrow> FiltersApply fl this \<and> \<not> SkipChildren this vo"
  by (subst (asm) unpruned_def, subst (asm) allNodes_eq) simp

lemma unpruned_children:
  "unpruned vo fl this \<Longrightarrow> filter (FiltersApply fl) (m_children this) = m_children this"
  "unpruned vo fl this \<Longrightarrow> filter (FiltersApply fl) (rev (m_children this)) = rev (m_children this)"
  using unpruned_child [of vo fl this] unpruned_self [of vo fl] by (auto simp: filter_id_conv)

lemma mset_visitOrder:
  "mset (visitOrder g vo fl d BACKWARD this) = mset (visitOrder g vo fl d FORWARD this)"
proof (induction "size this" arbitrary: this d rule: less_induct)
  case less
  have IH: "mset (visitOrder g vo fl d' BACKWARD c) = mset (visitOrder g vo fl d' FORWARD c)"
    if "c \<in> set (m_children this)" for c d'
    using less [of c d'] size_child [OF that] by simp
  have "mset (concat (map (visitOrder g vo fl d' BACKWARD) (filter (FiltersApply fl) (rev (m_children this))))) =
      mset (concat (map (visitOrder g vo fl d' FORWARD) (filter (FiltersApply fl) (m_children this))))" for d'
  proof -
    have "sum_list (map (\<lambda>c. mset (visitOrder g vo fl d' BACKWARD c)) (filter (FiltersApply fl) (m_children this))) =
        sum_list (map (\<lambda>c. mset (visitOrder g vo fl d' FORWARD c)) (filter (FiltersApply fl) (m_children this)))"
      using IH by (intro arg_cong [where f = sum_list] map_cong) auto
    then show ?thesis
      by (simp add: mset_concat rev_filter [symmetric] rev_map [symmetric] sum_list_rev comp_def)
  qed
  then show ?case
    by (simp add: visitOrder.simps [of g vo fl d _ this])
qed

lemma visitOrder_unlimited:
  assumes "unpruned vo fl this" and "\<And>n. g n = FUNCTOR_CONTINUE"
    and "d \<le> - 2 \<or> (d = - 1 \<and> \<not> IsEditorialElement this)"
  shows "visitOrder g vo fl d FORWARD this = allNodes this"
  using assms
proof (induction "size this" arbitrary: this d rule: less_induct)
  case less
  have b: "budget this d \<noteq> 0" "budget this d - 1 \<le> - 2"
    using less.prems(3) by (auto simp: budget_def)
  have IH: "visitOrder g vo fl (budget this d - 1) FORWARD c = allNodes c"
    if "c \<in> set (m_children this)" for c
    using less.hyps [of c "budget this d - 1"] size_child [OF that]
      unpruned_child [OF less.prems(1) that] less.prems(2) b by simp
  have "concat (map (visitOrder g vo fl (budget this d - 1) FORWARD) (m_children this)) =
      concat (map allNodes (m_children this))"
    using IH by (intro arg_cong [where f = concat] map_cong) auto
  then show ?case
    using b less.prems(2) unpruned_self [OF less.prems(1)] unpruned_children(1) [OF less.prems(1)]
    by (simp add: visitOrder.simps [of g vo fl d _ this] allNodes_eq [of this])
qed

lemma nonWrapperAncestors_Nil [simp]: "nonWrapperAncestors this [] = 0"
  by (simp add: nonWrapperAncestors_def)

lemma nonWrapperAncestors_Cons:
  "i < length (m_children this) \<Longrightarrow>
    nonWrapperAncestors this (i # p) =
      (if IsEditorialElement this then 0 else 1) + nonWrapperAncestors (m_children this ! i) p"
  by (simp add: nonWrapperAncestors_def)

lemma set_visitOrder:
  "set (visitOrder g vo fl d dir this) =
     insert this
       (if g this = FUNCTOR_SIBLINGS \<or> budget this d = 0 \<or> SkipChildren this vo then {}
        else (\<Union>c \<in> {c \<in> set (m_children this). FiltersApply fl c}.
                set (visitOrder g vo fl (budget this d - 1) dir c)))"
  by (cases dir) (auto simp: visitOrder.simps [of g vo fl d _ this])

lemma exists_path_iff:
  "(\<exists>p. nodeAt this p = Some n \<and> Q p) \<longleftrightarrow>
     (n = this \<and> Q []) \<or>
     (\<exists>i p. i < length (m_children this) \<and> nodeAt (m_children this ! i) p = Some n \<and> Q (i # p))"
  (is "?L \<longleftrightarrow> ?R")
proof
  assume ?L
  then obtain p where p: "nodeAt this p = Some n" "Q p" by blast
  show ?R
  proof (cases p)
    case Nil
    then show ?thesis using p by simp
  next
    case (Cons i p')
    then show ?thesis using p by (auto split: if_splits)
  qed
next
  assume ?R
  then show ?L
  proof
    assume "n = this \<and> Q []"
    then have "nodeAt this [] = Some n \<and> Q []" by simp
    then show ?L by blast
  next
    assume "\<exists>i p. i < length (m_children this) \<and> nodeAt (m_children this ! i) p = Some n \<and> Q (i # p)"
    then obtain i p where "i < length (m_children this)"
      "nodeAt (m_children this ! i) p = Some n" "Q (i # p)" by blast
    then have "nodeAt this (i # p) = Some n \<and> Q (i # p)" by simp
    then show ?L by blast
  qed
qed

lemma visitOrder_depth:
  assumes "unpruned vo fl this" and "\<And>n. g n = FUNCTOR_CONTINUE" and "0 \<le> d"
  shows "n \<in> set (visitOrder g vo fl d dir this) \<longleftrightarrow>
    (\<exists>p. nodeAt this p = Some n \<and> int (nonWrapperAncestors this p) \<le> d)"
  using assms
proof (induction "size this" arbitrary: this d rule: less_induct)
  case less
  note self = unpruned_self [OF less.prems(1)]
  have kids: "{c \<in> set (m_children this). FiltersApply fl c} = set (m_children this)"
    using unpruned_child [OF less.prems(1)] unpruned_self [of vo fl] by auto
  show ?case
  proof (cases "budget this d = 0")
    case True
    then have d0: "d = 0" and ne: "\<not> IsEditorialElement this"
      using less.prems(3) by (auto simp: budget_def split: if_splits)
    have V: "n \<in> set (visitOrder g vo fl d dir this) \<longleftrightarrow> n = this"
      using True by (simp add: set_visitOrder)
    have "\<not> int (nonWrapperAncestors this (i # p)) \<le> d"
      if "i < length (m_children this)" for i p
      using that d0 ne by (simp add: nonWrapperAncestors_Cons)
    moreover have "int (nonWrapperAncestors this []) \<le> d" using d0 by simp
    ultimately have "(\<exists>p. nodeAt this p = Some n \<and> int (nonWrapperAncestors this p) \<le> d) \<longleftrightarrow> n = this"
      unfolding exists_path_iff [of this n] by blast
    then show ?thesis using V by simp
  next
    case False
    then have b: "0 \<le> budget this d - 1"
      using less.prems(3) by (auto simp: budget_def split: if_splits)
    have bd: "budget this d - 1 = d - (if IsEditorialElement this then 0 else 1)"
      by (simp add: budget_def)
    have IH: "n \<in> set (visitOrder g vo fl (budget this d - 1) dir c) \<longleftrightarrow>
        (\<exists>p. nodeAt c p = Some n \<and> int (nonWrapperAncestors c p) \<le> budget this d - 1)"
      if "c \<in> set (m_children this)" for c
      using less.hyps [OF size_child [OF that] unpruned_child [OF less.prems(1) that] less.prems(2) b] .
    have L: "n \<in> set (visitOrder g vo fl d dir this) \<longleftrightarrow>
        n = this \<or> (\<exists>c \<in> set (m_children this).
          \<exists>p. nodeAt c p = Some n \<and> int (nonWrapperAncestors c p) \<le> budget this d - 1)"
      using False self less.prems(2) IH by (simp add: set_visitOrder kids)
    have step: "int (nonWrapperAncestors this (i # p)) \<le> d \<longleftrightarrow>
        int (nonWrapperAncestors (m_children this ! i) p) \<le> budget this d - 1"
      if "i < length (m_children this)" for i p
      using that by (auto simp: nonWrapperAncestors_Cons bd)
    have R: "(\<exists>p. nodeAt this p = Some n \<and> int (nonWrapperAncestors this p) \<le> d) \<longleftrightarrow>
        n = this \<or> (\<exists>i p. i < length (m_children this) \<and> nodeAt (m_children this ! i) p = Some n \<and>
          int (nonWrapperAncestors (m_children this ! i) p) \<le> budget this d - 1)"
      unfolding exists_path_iff [of this n] using less.prems(3) step
      by auto
    have conv: "(\<exists>c \<in> set (m_children this). P c) \<longleftrightarrow>
        (\<exists>i. i < length (m_children this) \<and> P (m_children this ! i))" for P
      by (auto simp: in_set_conv_nth intro: nth_mem)
    show ?thesis
      unfolding L R conv by auto
  qed
qed

lemma self_allNodes: "this \<in> set (allNodes this)"
  by (cases this) simp

lemma nodeAt_allNodes: "nodeAt this p = Some n \<Longrightarrow> n \<in> set (allNodes this)"
proof (induction p arbitrary: this)
  case Nil
  then show ?case by (simp add: self_allNodes)
next
  case (Cons i p)
  then have i: "i < length (m_children this)" and n: "nodeAt (m_children this ! i) p = Some n"
    by (auto split: if_splits)
  have "n \<in> set (allNodes (m_children this ! i))" using Cons.IH [OF n] .
  then show ?case using i allNodes_child [of "m_children this ! i" this] by auto
qed

lemma distinct_concat_nth:
  "distinct (concat yss) \<Longrightarrow> i < length yss \<Longrightarrow> distinct (yss ! i)"
  by (induction yss arbitrary: i) (auto simp: nth_Cons split: nat.splits)

lemma disjoint_concat_nth:
  "distinct (concat yss) \<Longrightarrow> i < length yss \<Longrightarrow> j < length yss \<Longrightarrow> i \<noteq> j \<Longrightarrow>
    set (yss ! i) \<inter> set (yss ! j) = {}"
proof (induction yss arbitrary: i j)
  case Nil
  then show ?case by simp
next
  case (Cons ys yss)
  have d: "set ys \<inter> set (concat yss) = {}" "distinct (concat yss)"
    using Cons.prems(1) by auto
  have sub: "set (yss ! k) \<subseteq> set (concat yss)" if "k < length yss" for k
    using that by (auto intro: nth_mem)
  show ?case
  proof (cases i)
    case 0
    then obtain j' where j: "j = Suc j'" using Cons.prems(4) by (cases j) auto
    then show ?thesis using 0 d(1) sub [of j'] Cons.prems(3) by auto
  next
    case (Suc i')
    show ?thesis
    proof (cases j)
      case 0
      then show ?thesis using Suc d(1) sub [of i'] Cons.prems(2) by auto
    next
      case (Suc j')
      then show ?thesis
        using \<open>i = Suc i'\<close> Cons.IH [OF d(2), of i' j'] Cons.prems(2,3,4) by simp
    qed
  qed
qed

lemma ids_allNodes:
  "map m_id (allNodes this) =
     m_id this # concat (map (\<lambda>c. map m_id (allNodes c)) (m_children this))"
  by (subst allNodes_eq) (simp add: map_concat comp_def)

lemma path_unique:
  assumes "distinct (map m_id (allNodes this))"
    and "nodeAt this p = Some a" and "nodeAt this q = Some b" and "m_id a = m_id b"
  shows "p = q"
  using assms
proof (induction p arbitrary: this q)
  case Nil
  show ?case
  proof (cases q)
    case Nil
    then show ?thesis by simp
  next
    case (Cons j q')
    then have j: "j < length (m_children this)" and b: "nodeAt (m_children this ! j) q' = Some b"
      using Nil.prems(3) by (auto split: if_splits)
    have "m_id b \<in> set (concat (map (\<lambda>c. map m_id (allNodes c)) (m_children this)))"
      using nodeAt_allNodes [OF b] j by (auto intro!: bexI [of _ "m_children this ! j"])
    moreover have "m_id this \<notin> set (concat (map (\<lambda>c. map m_id (allNodes c)) (m_children this)))"
      using Nil.prems(1) by (subst (asm) ids_allNodes) simp
    ultimately show ?thesis using Nil.prems(2,4) by simp
  qed
next
  case (Cons i p')
  have i: "i < length (m_children this)" and a: "nodeAt (m_children this ! i) p' = Some a"
    using Cons.prems(2) by (auto split: if_splits)
  let ?yss = "map (\<lambda>c. map m_id (allNodes c)) (m_children this)"
  have dc: "distinct (concat ?yss)" and nt: "m_id this \<notin> set (concat ?yss)"
    using Cons.prems(1) by (subst (asm) ids_allNodes, simp)+
  have ain: "m_id a \<in> set (?yss ! i)"
    using nodeAt_allNodes [OF a] i by simp
  show ?case
  proof (cases q)
    case Nil
    then have "b = this" using Cons.prems(3) by simp
    moreover have "m_id a \<in> set (concat ?yss)"
      using ain i by (auto intro!: bexI [of _ "m_children this ! i"])
    ultimately show ?thesis using nt Cons.prems(4) by simp
  next
    case (Cons j q')
    then have j: "j < length (m_children this)" and b: "nodeAt (m_children this ! j) q' = Some b"
      using Cons.prems(3) by (auto split: if_splits)
    have bin: "m_id b \<in> set (?yss ! j)"
      using nodeAt_allNodes [OF b] j by simp
    have ij: "i = j"
    proof (rule ccontr)
      assume "i \<noteq> j"
      then have "set (?yss ! i) \<inter> set (?yss ! j) = {}"
        using disjoint_concat_nth [OF dc, of i j] i j by simp
      then show False using ain bin Cons.prems(4) by auto
    qed
    have "distinct (?yss ! i)" using distinct_concat_nth [OF dc, of i] i by simp
    then have "distinct (map m_id (allNodes (m_children this ! i)))" using i by simp
    then have "p' = q'"
      using Cons.IH [of "m_children this ! i" q'] a b ij Cons.prems(4) by simp
    then show ?thesis using ij Cons by simp
  qed
qed

lemma no_wrappers_count:
  assumes "list_all (\<lambda>n. \<not> IsEditorialElement n) (allNodes this)" and "nodeAt this p = Some n"
  shows "nonWrapperAncestors this p = length p"
  using assms
proof (induction p arbitrary: this)
  case Nil
  then show ?case by simp
next
  case (Cons i p)
  have i: "i < length (m_children this)" and n: "nodeAt (m_children this ! i) p = Some n"
    using Cons.prems(2) by (auto split: if_splits)
  have "\<not> IsEditorialElement this"
    using Cons.prems(1) self_allNodes [of this] by (auto simp: list_all_iff)
  moreover have "list_all (\<lambda>n. \<not> IsEditorialElement n) (allNodes (m_children this ! i))"
    using Cons.prems(1) allNodes_child [of "m_children this ! i" this] i
    by (auto simp: list_all_iff)
  ultimately show ?case
    using Cons.IH [OF _ n] i by (simp add: nonWrapperAncestors_Cons)
qed

lemma visited_iff_depth:
  assumes "0 \<le> L"
    and "\<And>n p. fst (obj_fpt f n p) = FUNCTOR_CONTINUE"
    and "unpruned (m_visibleOnly f) fl root"
    and "distinct (map m_id (allNodes root))"
    and "returnCode s \<noteq> FUNCTOR_STOP" and "trace s = []"
    and "nodeAt root p = Some n"
  shows "m_id n \<in> set (visits (trace (Process f ef fl L dir False root s))) \<longleftrightarrow>
    int (nonWrapperAncestors root p) \<le> L"
proof -
  let ?g = "\<lambda>n::Object. FUNCTOR_CONTINUE"
  have v: "visits (trace (Process f ef fl L dir False root s)) =
      map m_id (visitOrder ?g (m_visibleOnly f) fl L dir root)"
    using visits_walk(1) [of f ?g False s ef fl L dir root] assms(2,5,6) by simp
  have in_iff: "x \<in> set (visitOrder ?g (m_visibleOnly f) fl L dir root) \<longleftrightarrow>
      (\<exists>q. nodeAt root q = Some x \<and> int (nonWrapperAncestors root q) \<le> L)" for x
    using visitOrder_depth [OF assms(3) _ assms(1), of ?g x dir] by simp
  show ?thesis
  proof
    assume "m_id n \<in> set (visits (trace (Process f ef fl L dir False root s)))"
    then obtain x where x: "x \<in> set (visitOrder ?g (m_visibleOnly f) fl L dir root)" "m_id x = m_id n"
      unfolding v by auto
    then obtain q where q: "nodeAt root q = Some x" "int (nonWrapperAncestors root q) \<le> L"
      using in_iff by blast
    have "q = p" using path_unique [OF assms(4) q(1) assms(7) x(2)] .
    then show "int (nonWrapperAncestors root p) \<le> L" using q(2) by simp
  next
    assume "int (nonWrapperAncestors root p) \<le> L"
    then have "n \<in> set (visitOrder ?g (m_visibleOnly f) fl L dir root)"
      using in_iff assms(7) by blast
    then show "m_id n \<in> set (visits (trace (Process f ef fl L dir False root s)))"
      unfolding v by simp
  qed
qed

section \<open>Depth limits and wrappers\<close>

text \<open>
  The count of the claim read word for word: the non-wrapper ancestors strictly below the
  root of the walk.
\<close>

definition nonWrapperAncestorsBelowRoot :: "Object \<Rightarrow> nat list \<Rightarrow> nat" where
  "nonWrapperAncestorsBelowRoot root p =
     length (filter (\<lambda>a. \<not> IsEditorialElement a) (tl (ancestorsOn root p)))"


text \<open>
  Claim C3 (as amended). Take a walk with depth limit \<open>L \<ge> 0\<close> that nothing but the depth
  limit prunes: the visitor always returns \<^verbatim>\<open>FUNCTOR_CONTINUE\<close>, no filter rejects a
  node of the tree and no node has its children skipped for visibility. Then a node of the
  tree (identities being distinct) is visited if and only if the number of objects that are
  not editorial wrappers among its ancestors within the walk, the root of the walk included,
  is at most \<open>L\<close>. Wrappers on the way do not count.
\<close>

theorem C3_wrappers_consume_no_depth:
  assumes "0 \<le> L"
    and "\<And>n p. fst (obj_fpt f n p) = FUNCTOR_CONTINUE"
    and "unpruned (m_visibleOnly f) fl root"
    and "distinct (map m_id (allNodes root))"
    and "returnCode s \<noteq> FUNCTOR_STOP" and "trace s = []"
    and "nodeAt root p = Some n"
  shows "m_id n \<in> set (visits (trace (Process f ef fl L dir False root s))) \<longleftrightarrow>
    int (nonWrapperAncestors root p) \<le> L"
  using assms by (rule visited_iff_depth)

lemma C3_example_tree:
  "allNodes (branch 1 [wrapper 2 [wrapper 3 [leaf 4]], branch 5 [leaf 6]]) =
    [branch 1 [wrapper 2 [wrapper 3 [leaf 4]], branch 5 [leaf 6]], wrapper 2 [wrapper 3 [leaf 4]],
     wrapper 3 [leaf 4], leaf 4, branch 5 [leaf 6], leaf 6]"
  by (simp add: branch_def wrapper_def leaf_def)

theorem C3_wrappers_consume_no_depth_witness:
  "(4 \<in> set (visits (trace (Process continueAlways None None 1 FORWARD False
        (branch 1 [wrapper 2 [wrapper 3 [leaf 4]], branch 5 [leaf 6]]) startState))) \<longleftrightarrow>
     int (nonWrapperAncestors (branch 1 [wrapper 2 [wrapper 3 [leaf 4]], branch 5 [leaf 6]]) [0, 0, 0]) \<le> 1)
   \<and> int (nonWrapperAncestors (branch 1 [wrapper 2 [wrapper 3 [leaf 4]], branch 5 [leaf 6]]) [0, 0, 0]) \<le> 1
   \<and> (6 \<in> set (visits (trace (Process continueAlways None None 1 FORWARD False
        (branch 1 [wrapper 2 [wrapper 3 [leaf 4]], branch 5 [leaf 6]]) startState))) \<longleftrightarrow>
     int (nonWrapperAncestors (branch 1 [wrapper 2 [wrapper 3 [leaf 4]], branch 5 [leaf 6]]) [1, 0]) \<le> 1)
   \<and> \<not> int (nonWrapperAncestors (branch 1 [wrapper 2 [wrapper 3 [leaf 4]], branch 5 [leaf 6]]) [1, 0]) \<le> 1"
proof -
  let ?t = "branch 1 [wrapper 2 [wrapper 3 [leaf 4]], branch 5 [leaf 6]]"
  have u: "unpruned (m_visibleOnly continueAlways) None ?t"
    unfolding unpruned_def C3_example_tree
    by (simp add: example_defs SkipChildren_def FiltersApply_def IsEditorialElement_def
        IsSystemElement_def Is_def)
  have d: "distinct (map m_id (allNodes ?t))"
    unfolding C3_example_tree by (simp add: branch_def wrapper_def leaf_def)
  have c: "\<And>n p. fst (obj_fpt continueAlways n p) = FUNCTOR_CONTINUE"
    by (simp add: continueAlways_def)
  have s: "returnCode startState \<noteq> FUNCTOR_STOP" "trace startState = []"
    by (simp_all add: startState_def)
  have n4: "nodeAt ?t [0, 0, 0] = Some (leaf 4)" and n6: "nodeAt ?t [1, 0] = Some (leaf 6)"
    by (simp_all add: branch_def wrapper_def leaf_def)
  have i4: "m_id (leaf 4) = 4" and i6: "m_id (leaf 6) = 6" by (simp_all add: leaf_def)
  have k4: "nonWrapperAncestors ?t [0, 0, 0] = 1" and k6: "nonWrapperAncestors ?t [1, 0] = 2"
    by (simp_all add: nonWrapperAncestors_def example_defs IsEditorialElement_def)
  show ?thesis
    using C3_wrappers_consume_no_depth [OF _ c u d s n4, of 1 None FORWARD]
      C3_wrappers_consume_no_depth [OF _ c u d s n6, of 1 None FORWARD] k4 k6
    by (simp add: i4 i6)
qed

text \<open>
  The claim as stated counts the ancestors below the root only. A plain root with one child
  and limit 0: the child has no ancestor below the root, and it is not visited.
\<close>

theorem C3_counterexample:
  "\<not> (2 \<in> set (visits (trace (Process continueAlways None None 0 FORWARD False
          (branch 1 [leaf 2]) startState))) \<longleftrightarrow>
        int (nonWrapperAncestorsBelowRoot (branch 1 [leaf 2]) [0]) \<le> 0)"
  by (simp add: example_defs walk_defs nonWrapperAncestorsBelowRoot_def)


text \<open>
  Claim C4 (as amended). In a walk that nothing but the depth limit prunes: a depth limit of
  \<open>-2\<close> or less, or of \<open>-1\<close> on a root that is not an editorial wrapper, visits every node
  of the subtree exactly once (in document order when forward); in a tree without wrappers a
  limit \<open>L \<ge> 0\<close> visits exactly the nodes at depth at most \<open>L\<close>, the budget going down by
  one per level; and a limit of \<open>0\<close> on a root that is not a wrapper visits the root only.
\<close>

theorem C4_depth_limit:
  assumes "\<And>n p. fst (obj_fpt f n p) = FUNCTOR_CONTINUE"
    and "unpruned (m_visibleOnly f) fl root"
    and "returnCode s \<noteq> FUNCTOR_STOP" and "trace s = []"
  shows "(L \<le> - 2 \<or> (L = - 1 \<and> \<not> IsEditorialElement root) \<longrightarrow>
        visits (trace (Process f ef fl L FORWARD False root s)) = map m_id (allNodes root) \<and>
        mset (visits (trace (Process f ef fl L BACKWARD False root s))) = mset (map m_id (allNodes root)))
    \<and> (0 \<le> L \<and> list_all (\<lambda>n. \<not> IsEditorialElement n) (allNodes root) \<and>
        distinct (map m_id (allNodes root)) \<and> nodeAt root p = Some n \<longrightarrow>
        (m_id n \<in> set (visits (trace (Process f ef fl L dir False root s))) \<longleftrightarrow> int (length p) \<le> L))
    \<and> (\<not> IsEditorialElement root \<longrightarrow>
        visits (trace (Process f ef fl 0 dir False root s)) = [m_id root])"
proof -
  let ?g = "\<lambda>n::Object. FUNCTOR_CONTINUE"
  have v: "visits (trace (Process f ef fl L' dir' False root s)) =
      map m_id (visitOrder ?g (m_visibleOnly f) fl L' dir' root)" for L' dir'
    using visits_walk(1) [of f ?g False s ef fl L' dir' root] assms(1,3,4) by simp
  have unlimited: "visits (trace (Process f ef fl L FORWARD False root s)) = map m_id (allNodes root) \<and>
      mset (visits (trace (Process f ef fl L BACKWARD False root s))) = mset (map m_id (allNodes root))"
    if "L \<le> - 2 \<or> (L = - 1 \<and> \<not> IsEditorialElement root)"
  proof -
    have fw: "visitOrder ?g (m_visibleOnly f) fl L FORWARD root = allNodes root"
      using visitOrder_unlimited [OF assms(2) _ that, of ?g] by simp
    have "mset (map m_id (visitOrder ?g (m_visibleOnly f) fl L BACKWARD root)) =
        mset (map m_id (visitOrder ?g (m_visibleOnly f) fl L FORWARD root))"
      using mset_visitOrder [of ?g "m_visibleOnly f" fl L root]
      by (metis mset_map)
    then show ?thesis by (simp add: v fw)
  qed
  have levels: "m_id n \<in> set (visits (trace (Process f ef fl L dir False root s))) \<longleftrightarrow> int (length p) \<le> L"
    if "0 \<le> L" "list_all (\<lambda>n. \<not> IsEditorialElement n) (allNodes root)"
      "distinct (map m_id (allNodes root))" "nodeAt root p = Some n"
    using visited_iff_depth [OF that(1) assms(1,2) that(3) assms(3,4) that(4), of ef dir]
      no_wrappers_count [OF that(2,4)] by simp
  have zero: "visits (trace (Process f ef fl 0 dir False root s)) = [m_id root]"
    if "\<not> IsEditorialElement root"
    using that by (simp add: v visitOrder.simps [of _ _ _ 0 _ root] budget_def)
  show ?thesis
    using unlimited levels zero by blast
qed

theorem C4_depth_limit_witness:
  "visits (trace (Process continueAlways None None (- 1) FORWARD False
      (branch 1 [wrapper 2 [leaf 3], leaf 4]) startState)) = [1, 2, 3, 4]
   \<and> mset (visits (trace (Process continueAlways None None (- 1) BACKWARD False
      (branch 1 [wrapper 2 [leaf 3], leaf 4]) startState))) = mset [1, 2, 3, 4]
   \<and> (3 \<in> set (visits (trace (Process continueAlways None None 1 FORWARD False
      (branch 1 [branch 2 [leaf 3], leaf 4]) startState))) \<longleftrightarrow> int (length [0, 0 :: nat]) \<le> 1)
   \<and> visits (trace (Process continueAlways None None 0 FORWARD False
      (branch 1 [wrapper 2 [leaf 3], leaf 4]) startState)) = [1]"
proof -
  let ?t = "branch 1 [wrapper 2 [leaf 3], leaf 4]"
  let ?t' = "branch 1 [branch 2 [leaf 3], leaf 4]"
  have a: "allNodes ?t = [?t, wrapper 2 [leaf 3], leaf 3, leaf 4]"
    and a': "allNodes ?t' = [?t', branch 2 [leaf 3], leaf 3, leaf 4]"
    by (simp_all add: branch_def wrapper_def leaf_def)
  have u: "unpruned (m_visibleOnly continueAlways) None ?t"
    and u': "unpruned (m_visibleOnly continueAlways) None ?t'"
    unfolding unpruned_def a a'
    by (simp_all add: example_defs SkipChildren_def FiltersApply_def IsEditorialElement_def
        IsSystemElement_def Is_def)
  have c: "\<And>n p. fst (obj_fpt continueAlways n p) = FUNCTOR_CONTINUE"
    by (simp add: continueAlways_def)
  have s: "returnCode startState \<noteq> FUNCTOR_STOP" "trace startState = []"
    by (simp_all add: startState_def)
  have ne: "\<not> IsEditorialElement ?t"
    by (simp add: example_defs IsEditorialElement_def)
  have ids: "map m_id (allNodes ?t) = [1, 2, 3, 4]"
    unfolding a by (simp add: branch_def wrapper_def leaf_def)
  have nw: "list_all (\<lambda>n. \<not> IsEditorialElement n) (allNodes ?t')"
    and di: "distinct (map m_id (allNodes ?t'))" and n3: "nodeAt ?t' [0, 0] = Some (leaf 3)"
    unfolding a' by (simp_all add: example_defs IsEditorialElement_def)
  have i3: "m_id (leaf 3) = 3" and i1: "m_id ?t = 1" by (simp_all add: leaf_def branch_def)
  have ms: "image_mset m_id (mset (allNodes ?t)) = mset [1, 2, 3, 4]"
    unfolding a by (simp add: branch_def wrapper_def leaf_def)
  show ?thesis
    using C4_depth_limit [OF c u s, of "- 1" None "[]" "leaf 1" FORWARD]
      C4_depth_limit [OF c u' s, of 1 None "[0, 0]" "leaf 3" FORWARD] ne ids nw di n3 i3 i1 ms
    by simp
qed

text \<open>
  On a wrapper root the limit \<open>0\<close> reaches the children as well, and the limit \<open>-1\<close> stops
  at the root.
\<close>

theorem C4_counterexample:
  "visits (trace (Process continueAlways None None 0 FORWARD False
      (wrapper 1 [leaf 2]) startState)) = [1, 2]
   \<and> visits (trace (Process continueAlways None None (- 1) FORWARD False
      (wrapper 1 [leaf 2]) startState)) = [1]"
  by (simp add: example_defs walk_defs)


section \<open>Direction\<close>

text \<open>
  Claim C5 (as amended). For a visitor whose code depends on the visited object alone and is
  never \<^verbatim>\<open>FUNCTOR_STOP\<close>: the backward and the forward walk of a tree visit the same
  multiset of objects; and where the walk descends below a node, the backward walk is the
  node followed by the backward walks of its (filtered) children taken in reverse child
  order, the forward walk the node followed by the forward walks of the children in child
  order.
\<close>

theorem C5_backward_reverses_siblings:
  assumes "\<And>n p. fst (obj_fpt f n p) = g n" and "\<And>n. g n \<noteq> FUNCTOR_STOP"
    and "returnCode s \<noteq> FUNCTOR_STOP" and "trace s = []"
  shows "mset (visits (trace (Process f ef fl d BACKWARD False this s))) =
      mset (visits (trace (Process f ef fl d FORWARD False this s)))
    \<and> (g this \<noteq> FUNCTOR_SIBLINGS \<and> budget this d \<noteq> 0 \<and> \<not> SkipChildren this (m_visibleOnly f) \<longrightarrow>
        visits (trace (Process f ef fl d BACKWARD False this s)) =
          m_id this # concat (map (\<lambda>c. visits (trace (Process f ef fl (budget this d - 1) BACKWARD False c s)))
            (rev (filter (FiltersApply fl) (m_children this))))
        \<and> visits (trace (Process f ef fl d FORWARD False this s)) =
          m_id this # concat (map (\<lambda>c. visits (trace (Process f ef fl (budget this d - 1) FORWARD False c s)))
            (filter (FiltersApply fl) (m_children this))))"
proof -
  have v: "visits (trace (Process f ef fl d' dir False n s)) =
      map m_id (visitOrder g (m_visibleOnly f) fl d' dir n)" for d' dir n
    using visits_walk(1) [of f g False s ef fl d' dir n] assms by simp
  have "mset (map m_id (visitOrder g (m_visibleOnly f) fl d BACKWARD this)) =
      mset (map m_id (visitOrder g (m_visibleOnly f) fl d FORWARD this))"
    using mset_visitOrder [of g "m_visibleOnly f" fl d this] by (metis mset_map)
  then have m: "mset (visits (trace (Process f ef fl d BACKWARD False this s))) =
      mset (visits (trace (Process f ef fl d FORWARD False this s)))"
    by (simp only: v)
  have o: "visits (trace (Process f ef fl d BACKWARD False this s)) =
          m_id this # concat (map (\<lambda>c. visits (trace (Process f ef fl (budget this d - 1) BACKWARD False c s)))
            (rev (filter (FiltersApply fl) (m_children this))))
        \<and> visits (trace (Process f ef fl d FORWARD False this s)) =
          m_id this # concat (map (\<lambda>c. visits (trace (Process f ef fl (budget this d - 1) FORWARD False c s)))
            (filter (FiltersApply fl) (m_children this)))"
    if "g this \<noteq> FUNCTOR_SIBLINGS \<and> budget this d \<noteq> 0 \<and> \<not> SkipChildren this (m_visibleOnly f)"
    using that
    by (simp add: v visitOrder.simps [of g _ fl d _ this] map_concat comp_def rev_filter)
  show ?thesis using m o by blast
qed

theorem C5_backward_reverses_siblings_witness:
  "mset (visits (trace (Process (siblingsOn 2) None None (- 1) BACKWARD False
      (branch 1 [branch 2 [leaf 5], leaf 3, leaf 4]) startState))) =
    mset (visits (trace (Process (siblingsOn 2) None None (- 1) FORWARD False
      (branch 1 [branch 2 [leaf 5], leaf 3, leaf 4]) startState)))
   \<and> visits (trace (Process (siblingsOn 2) None None (- 1) BACKWARD False
      (branch 1 [branch 2 [leaf 5], leaf 3, leaf 4]) startState)) = [1, 4, 3, 2]
   \<and> visits (trace (Process (siblingsOn 2) None None (- 1) FORWARD False
      (branch 1 [branch 2 [leaf 5], leaf 3, leaf 4]) startState)) = [1, 2, 3, 4]"
proof -
  let ?t = "branch 1 [branch 2 [leaf 5], leaf 3, leaf 4]"
  have c: "\<And>n p. fst (obj_fpt (siblingsOn 2) n p) = siblingsOn2 n"
    and ns: "\<And>n. siblingsOn2 n \<noteq> FUNCTOR_STOP"
    by (simp_all add: siblingsOn_def siblingsOn2_def)
  have s: "returnCode startState \<noteq> FUNCTOR_STOP" "trace startState = []"
    by (simp_all add: startState_def)
  have m: "mset (visits (trace (Process (siblingsOn 2) None None (- 1) BACKWARD False ?t startState))) =
      mset (visits (trace (Process (siblingsOn 2) None None (- 1) FORWARD False ?t startState)))"
    using C5_backward_reverses_siblings [OF c ns s, of None None "- 1" ?t] by (rule conjunct1)
  have b: "visits (trace (Process (siblingsOn 2) None None (- 1) BACKWARD False ?t startState)) =
      [1, 4, 3, 2]"
    by (simp add: example_defs walk_defs)
  have f: "visits (trace (Process (siblingsOn 2) None None (- 1) FORWARD False ?t startState)) =
      [1, 2, 3, 4]"
    by (simp add: example_defs walk_defs)
  show ?thesis using m b f by blast
qed

text \<open>
  A visitor that stops on the middle one of three children sees the first child in one
  direction and the last in the other.
\<close>

theorem C5_counterexample:
  "visits (trace (Process (stopOn 3) None None (- 1) FORWARD False
      (branch 1 [leaf 2, leaf 3, leaf 4]) startState)) = [1, 2, 3]
   \<and> visits (trace (Process (stopOn 3) None None (- 1) BACKWARD False
      (branch 1 [leaf 2, leaf 3, leaf 4]) startState)) = [1, 4, 3]
   \<and> mset (visits (trace (Process (stopOn 3) None None (- 1) BACKWARD False
      (branch 1 [leaf 2, leaf 3, leaf 4]) startState))) \<noteq>
     mset (visits (trace (Process (stopOn 3) None None (- 1) FORWARD False
      (branch 1 [leaf 2, leaf 3, leaf 4]) startState)))"
proof -
  have f: "visits (trace (Process (stopOn 3) None None (- 1) FORWARD False
      (branch 1 [leaf 2, leaf 3, leaf 4]) startState)) = [1, 2, 3]"
    by (simp add: example_defs walk_defs)
  have b: "visits (trace (Process (stopOn 3) None None (- 1) BACKWARD False
      (branch 1 [leaf 2, leaf 3, leaf 4]) startState)) = [1, 4, 3]"
    by (simp add: example_defs walk_defs)
  have "count (mset [1, 4, 3 :: nat]) 2 \<noteq> count (mset [1, 2, 3 :: nat]) 2" by simp
  then have "mset [1, 4, 3 :: nat] \<noteq> mset [1, 2, 3 :: nat]" by metis
  then show ?thesis unfolding f b by simp
qed

section \<open>The cached list\<close>

text \<open>
  With no end functor and a visitor whose code depends on the object alone, the parameters
  after a walk are the visitor's updates folded over \<open>visitOrder\<close>.
\<close>

lemma params_walk:
  assumes "\<And>n p. obj_fpt f n p = (g n, h n p)" and "\<And>n. g n \<noteq> FUNCTOR_STOP"
  shows "\<not> sk \<Longrightarrow> ef = None \<Longrightarrow> returnCode s \<noteq> FUNCTOR_STOP \<Longrightarrow>
      functorParams (Process f ef fl d dir sk this s) =
        fold h (visitOrder g (m_visibleOnly f) fl d dir this) (functorParams s)
      \<and> returnCode (Process f ef fl d dir sk this s) \<noteq> FUNCTOR_STOP"
    and "ef = None \<Longrightarrow> returnCode s \<noteq> FUNCTOR_STOP \<Longrightarrow>
      functorParams (ProcessChildren f ef fl d dir cs s) =
        fold h (concat (map (visitOrder g (m_visibleOnly f) fl d dir) (filter (FiltersApply fl) cs)))
          (functorParams s)
      \<and> returnCode (ProcessChildren f ef fl d dir cs s) \<noteq> FUNCTOR_STOP"
  using assms
proof (induction f ef fl d dir sk this s and f ef fl d dir cs s
    rule: Process_ProcessChildren.induct)
  case (1 f ef fl d dir sk this s)
  have codes: "\<And>n p. obj_fpt f n p = (g n, h n p)" and nostop: "\<And>n. g n \<noteq> FUNCTOR_STOP"
    and sk: "\<not> sk" and ef: "ef = None" and ns: "returnCode s \<noteq> FUNCTOR_STOP"
    using "1.prems" by blast+
  define s2 where "s2 = entered f dir sk this s"
  have v2: "functorParams s2 = h this (functorParams s)"
    using sk codes by (simp add: s2_def entered_def Call_def Let_def)
  have r2: "returnCode s2 = g this"
    using sk codes by (simp add: s2_def entered_def)
  show ?case
  proof (cases "g this = FUNCTOR_SIBLINGS \<or> budget this d = 0")
    case True
    then show ?thesis
      using ns v2 r2 nostop [of this] unfolding s2_def
      by (auto simp: Process_eq visitOrder.simps [of g _ fl d _ this])
  next
    case False
    have s2': "s2 = (if \<not> sk then Call f this (UpdateDocumentScore dir this s)
        else UpdateDocumentScore dir this s)"
      by (simp add: s2_def entered_def)
    have b: "budget this d = (if IsEditorialElement this then d + 1 else d)"
      by (simp add: budget_def)
    have nsib: "returnCode s2 \<noteq> FUNCTOR_SIBLINGS" and nz: "budget this d \<noteq> 0"
      using False r2 by auto
    have ns2: "returnCode s2 \<noteq> FUNCTOR_STOP" using r2 nostop by simp
    define s3 where "s3 = descend f ef fl (budget this d - 1) dir this s2"
    have v3: "functorParams s3 = fold h (visitOrder g (m_visibleOnly f) fl d dir this) (functorParams s)
        \<and> returnCode s3 \<noteq> FUNCTOR_STOP"
    proof (cases "SkipChildren this (m_visibleOnly f)")
      case True
      then show ?thesis
        using v2 ns2 by (simp add: s3_def descend_def visitOrder.simps [of g _ fl d _ this])
    next
      case nskip: False
      show ?thesis
      proof (cases "dir = BACKWARD")
        case bw: True
        show ?thesis
          using "1.IH"(1) [OF ns refl s2' nsib b nz refl nskip bw ef ns2] codes nostop
            False nskip bw v2
          by (simp add: s3_def descend_def visitOrder.simps [of g _ fl d _ this])
      next
        case fw: False
        show ?thesis
          using "1.IH"(2) [OF ns refl s2' nsib b nz refl nskip fw ef ns2] codes nostop
            False nskip fw v2
          by (simp add: s3_def descend_def visitOrder.simps [of g _ fl d _ this])
      qed
    qed
    have "leave ef sk this s3 = s3"
      using ef by (simp add: leave_def)
    then show ?thesis
      using v3 ns nsib nz unfolding s3_def s2_def by (simp add: Process_eq)
  qed
next
  case (2 f ef fl d dir s)
  then show ?case by simp
next
  case (3 f ef fl d dir child rest s)
  have codes: "\<And>n p. obj_fpt f n p = (g n, h n p)" and nostop: "\<And>n. g n \<noteq> FUNCTOR_STOP"
    and ef: "ef = None" and ns: "returnCode s \<noteq> FUNCTOR_STOP"
    using "3.prems" by blast+
  show ?case
  proof (cases "FiltersApply fl child")
    case True
    have a: "functorParams (Process f ef fl d dir False child s) =
        fold h (visitOrder g (m_visibleOnly f) fl d dir child) (functorParams s)
        \<and> returnCode (Process f ef fl d dir False child s) \<noteq> FUNCTOR_STOP"
      using "3.IH"(1) [OF True _ ef ns] codes nostop by blast
    then show ?thesis
      using "3.IH"(2) codes nostop True ef by simp
  next
    case False
    then show ?thesis
      using "3.IH"(2) codes nostop ns ef by simp
  qed
qed

text \<open>
  The node itself and the descendants that do not lie below an editorial, mdiv or system
  element that is hidden, in document order.
\<close>

fun visibleNodes :: "Object \<Rightarrow> Object list" where
  "visibleNodes (Object i c a sd csd cs) =
     Object i c a sd csd cs #
       (if SkipChildren (Object i c a sd csd cs) True then [] else concat (map visibleNodes cs))"

lemma visibleNodes_eq:
  "visibleNodes this =
     this # (if SkipChildren this True then [] else concat (map visibleNodes (m_children this)))"
  by (cases this) simp

lemma visitOrder_visible:
  assumes "\<And>n. g n = FUNCTOR_CONTINUE"
    and "d \<le> - 2 \<or> (d = - 1 \<and> \<not> IsEditorialElement this)"
  shows "visitOrder g True None d FORWARD this = visibleNodes this"
  using assms
proof (induction "size this" arbitrary: this d rule: less_induct)
  case less
  have b: "budget this d \<noteq> 0" "budget this d - 1 \<le> - 2"
    using less.prems(2) by (auto simp: budget_def)
  have IH: "visitOrder g True None (budget this d - 1) FORWARD c = visibleNodes c"
    if "c \<in> set (m_children this)" for c
    using less.hyps [of c "budget this d - 1"] size_child [OF that] less.prems(1) b by simp
  have "concat (map (visitOrder g True None (budget this d - 1) FORWARD) (m_children this)) =
      concat (map visibleNodes (m_children this))"
    using IH by (intro arg_cong [where f = concat] map_cong) auto
  then show ?case
    using b less.prems(1)
    by (simp add: visitOrder.simps [of g True None d _ this] visibleNodes_eq [of this]
        FiltersApply_def)
qed

text \<open>
  What a read of the cached list touches: the dirty flag of the node that owns the list, the
  dirty flags of its ancestors (parent first), the list \<^verbatim>\<open>m_list\<close> of the interface,
  the current score of the document (the walk updates it), and a count of the rebuilds (not
  in the source: one per \<^verbatim>\<open>m_list.clear()\<close> of \<^verbatim>\<open>ResetList\<close>). The subtree of
  the node is an argument of the read.
\<close>

record ListState =
  m_isModified :: bool
  ancestorsModified :: "bool list"
  m_list :: "Object list"
  documentScore :: "ident option"
  rebuilds :: nat

definition IsModified :: "ListState \<Rightarrow> bool" where
  "IsModified st = m_isModified st"

text \<open>
  \<^verbatim>\<open>Object::Modify(bool modified)\<close>: the parent, when there is one and the
  modification is new, is marked with \<^verbatim>\<open>Modify()\<close> (which marks its own parent in
  turn), then the flag of the object is set. \<open>ModifyChain\<close> is \<^verbatim>\<open>Modify\<close> on an
  object given by its flag and the flags of its ancestors.
\<close>

fun ModifyChain :: "bool \<Rightarrow> bool list \<Rightarrow> bool list" where
  "ModifyChain modified [] = []"
| "ModifyChain modified (own # up) =
     modified # (if up \<noteq> [] \<and> modified then ModifyChain True up else up)"

definition Modify :: "bool \<Rightarrow> ListState \<Rightarrow> ListState" where
  "Modify modified st =
     st\<lparr>ancestorsModified :=
          (if ancestorsModified st \<noteq> [] \<and> modified then ModifyChain True (ancestorsModified st)
           else ancestorsModified st),
        m_isModified := modified\<rparr>"

text \<open>
  \<^verbatim>\<open>Object::AddLayerElementToFlatList\<close> and the functor \<^verbatim>\<open>FillFlatList\<close> builds
  from it with the constructor \<^verbatim>\<open>Functor(int (Object::*)(FunctorParams *) const)\<close>,
  which sets \<^verbatim>\<open>m_visibleOnly\<close> to true.
\<close>

definition AddLayerElementToFlatList :: "Object \<Rightarrow> Object list \<Rightarrow> FunctorCode \<times> Object list" where
  "AddLayerElementToFlatList this flatList = (FUNCTOR_CONTINUE, flatList @ [this])"

definition addToFlatList :: "Object list Functor" where
  "addToFlatList = \<lparr>obj_fpt = AddLayerElementToFlatList, m_visibleOnly = True\<rparr>"

text \<open>
  \<^verbatim>\<open>Object::FillFlatList\<close>. The call passes the functor and its parameters only. The
  other arguments of \<^verbatim>\<open>Process\<close> take the defaults of its declaration in
  \<^verbatim>\<open>object.h\<close>, which is not among the sources; they are taken from the spec, which
  describes the rebuild as one unrestricted pass that keeps the order: no end functor, no
  filters, forward, the first object not skipped, and the depth \<^verbatim>\<open>UNLIMITED_DEPTH\<close>,
  a constant that is a parameter here. The functor starts with the code
  \<^verbatim>\<open>FUNCTOR_CONTINUE\<close> its constructor gives it.
\<close>

definition FillFlatList :: "int \<Rightarrow> Object \<Rightarrow> Object list \<times> ident option \<Rightarrow> Object list \<times> ident option" where
  "FillFlatList unlimitedDepth this arg =
     (let s = Process addToFlatList None None unlimitedDepth FORWARD False this
                \<lparr>returnCode = FUNCTOR_CONTINUE, endReturnCode = FUNCTOR_CONTINUE,
                 functorParams = fst arg, currentScore = snd arg, trace = []\<rparr>
      in (functorParams s, currentScore s))"

text \<open>
  \<^verbatim>\<open>ObjectListInterface::ResetList\<close> and \<^verbatim>\<open>GetList\<close>. \<^verbatim>\<open>FilterList\<close> is
  virtual and supplied by the class that owns the list;
  \<^verbatim>\<open>TextListInterface::FilterList\<close> is the one the sources hold.
\<close>

definition TextListInterface_FilterList :: "Object list \<Rightarrow> Object list" where
  "TextListInterface_FilterList childList = filter (\<lambda>obj. Is obj LB \<or> Is obj TEXT) childList"

definition ResetList :: "int \<Rightarrow> (Object list \<Rightarrow> Object list) \<Rightarrow> Object \<Rightarrow> ListState \<Rightarrow> ListState" where
  "ResetList unlimitedDepth FilterList node st =
     (if \<not> IsModified st then st
      else
        let st1 = Modify False st;
            st2 = st1\<lparr>m_list := [], rebuilds := Suc (rebuilds st1)\<rparr>;
            r = FillFlatList unlimitedDepth node (m_list st2, documentScore st2);
            st3 = st2\<lparr>m_list := fst r, documentScore := snd r\<rparr>
        in st3\<lparr>m_list := FilterList (m_list st3)\<rparr>)"

definition GetList :: "int \<Rightarrow> (Object list \<Rightarrow> Object list) \<Rightarrow> Object \<Rightarrow> ListState
    \<Rightarrow> Object list \<times> ListState" where
  "GetList unlimitedDepth FilterList node st =
     (let st' = ResetList unlimitedDepth FilterList node st in (m_list st', st'))"

definition freshList :: ListState where
  "freshList = \<lparr>m_isModified = True, ancestorsModified = [False], m_list = [],
     documentScore = None, rebuilds = 0\<rparr>"

lemma fold_append_each: "fold (\<lambda>n l. l @ [n]) xs l0 = l0 @ xs"
  by (induction xs arbitrary: l0) simp_all

lemma FillFlatList_visible:
  assumes "u \<le> - 2 \<or> (u = - 1 \<and> \<not> IsEditorialElement node)"
  shows "fst (FillFlatList u node (l0, sc)) = l0 @ visibleNodes node"
proof -
  let ?g = "\<lambda>n::Object. FUNCTOR_CONTINUE"
  let ?h = "\<lambda>(n::Object) l. l @ [n]"
  let ?s = "\<lparr>returnCode = FUNCTOR_CONTINUE, endReturnCode = FUNCTOR_CONTINUE,
            functorParams = l0, currentScore = sc, trace = []\<rparr>"
  have c: "\<And>n p. obj_fpt addToFlatList n p = (?g n, ?h n p)"
    by (simp add: addToFlatList_def AddLayerElementToFlatList_def)
  have "functorParams (Process addToFlatList None None u FORWARD False node ?s) =
      fold ?h (visitOrder ?g (m_visibleOnly addToFlatList) None u FORWARD node) (functorParams ?s)"
    using params_walk(1) [of addToFlatList ?g ?h False None ?s None u FORWARD node, OF c] by simp
  moreover have "visitOrder ?g (m_visibleOnly addToFlatList) None u FORWARD node = visibleNodes node"
    using visitOrder_visible [of ?g u node] assms by (simp add: addToFlatList_def)
  ultimately show ?thesis
    by (simp add: FillFlatList_def Let_def fold_append_each)
qed


text \<open>
  Claim C6 (as amended). For a node that owns a cached list, with
  \<^verbatim>\<open>UNLIMITED_DEPTH\<close> at most \<open>-2\<close> (or \<open>-1\<close> and the node no editorial wrapper):
  a read with the dirty flag clear returns the stored list and changes nothing; a read with
  the flag set rebuilds once, clears the flag (the ancestors' flags stay), and stores the
  filter applied once to the node itself and those of its descendants that are not below a
  hidden editorial, mdiv or system element; a second read right after any read returns the
  same list with no rebuild; and after \<^verbatim>\<open>Modify()\<close> marks the node, the next read
  rebuilds exactly once.
\<close>

theorem C6_cached_list:
  assumes "u \<le> - 2 \<or> (u = - 1 \<and> \<not> IsEditorialElement node)"
  shows "(\<not> m_isModified st \<longrightarrow> GetList u FilterList node st = (m_list st, st))
    \<and> (m_isModified st \<longrightarrow>
         fst (GetList u FilterList node st) = FilterList (visibleNodes node)
         \<and> rebuilds (snd (GetList u FilterList node st)) = Suc (rebuilds st)
         \<and> \<not> m_isModified (snd (GetList u FilterList node st))
         \<and> ancestorsModified (snd (GetList u FilterList node st)) = ancestorsModified st)
    \<and> GetList u FilterList node (snd (GetList u FilterList node st)) =
         (fst (GetList u FilterList node st), snd (GetList u FilterList node st))
    \<and> m_isModified (Modify True st)
    \<and> rebuilds (snd (GetList u FilterList node' (Modify True (snd (GetList u FilterList node st))))) =
         Suc (rebuilds (snd (GetList u FilterList node st)))"
proof -
  have clean: "GetList u FilterList n st' = (m_list st', st')" if "\<not> m_isModified st'" for st' n
    using that by (simp add: GetList_def ResetList_def IsModified_def)
  have flag: "\<not> m_isModified (snd (GetList u FilterList n st'))" for st' n
    by (simp add: GetList_def ResetList_def IsModified_def Modify_def Let_def)
  have count: "rebuilds (snd (GetList u FilterList n st')) = Suc (rebuilds st')"
    if "m_isModified st'" for st' n
    using that by (simp add: GetList_def ResetList_def IsModified_def Modify_def Let_def)
  have dirty: "fst (GetList u FilterList node st) = FilterList (visibleNodes node)
      \<and> ancestorsModified (snd (GetList u FilterList node st)) = ancestorsModified st"
    if "m_isModified st"
    using that FillFlatList_visible [OF assms, of "[]"]
    by (simp add: GetList_def ResetList_def IsModified_def Modify_def Let_def)
  have again: "GetList u FilterList node (snd (GetList u FilterList node st)) =
      (fst (GetList u FilterList node st), snd (GetList u FilterList node st))"
    using clean [OF flag, of node node st] by (simp add: GetList_def Let_def)
  have m: "m_isModified (Modify True st')" for st'
    by (simp add: Modify_def)
  have after: "rebuilds (snd (GetList u FilterList node' (Modify True (snd (GetList u FilterList node st))))) =
      Suc (rebuilds (snd (GetList u FilterList node st)))"
    using count [OF m, of node' "snd (GetList u FilterList node st)"] by (simp add: Modify_def)
  show ?thesis
    using clean [of st node] dirty count [of st node] flag [of node st] again m [of st] after
    by blast
qed

theorem C6_cached_list_witness:
  "fst (GetList (- 1) (\<lambda>l. l) (branch 1 [leaf 2, leaf 3]) freshList) =
      [branch 1 [leaf 2, leaf 3], leaf 2, leaf 3]
   \<and> rebuilds (snd (GetList (- 1) (\<lambda>l. l) (branch 1 [leaf 2, leaf 3]) freshList)) = 1
   \<and> \<not> m_isModified (snd (GetList (- 1) (\<lambda>l. l) (branch 1 [leaf 2, leaf 3]) freshList))
   \<and> GetList (- 1) (\<lambda>l. l) (branch 1 [leaf 2, leaf 3])
        (snd (GetList (- 1) (\<lambda>l. l) (branch 1 [leaf 2, leaf 3]) freshList)) =
      (fst (GetList (- 1) (\<lambda>l. l) (branch 1 [leaf 2, leaf 3]) freshList),
       snd (GetList (- 1) (\<lambda>l. l) (branch 1 [leaf 2, leaf 3]) freshList))
   \<and> rebuilds (snd (GetList (- 1) (\<lambda>l. l) (branch 1 [leaf 2])
        (Modify True (snd (GetList (- 1) (\<lambda>l. l) (branch 1 [leaf 2, leaf 3]) freshList))))) = 2"
proof -
  have ne: "\<not> IsEditorialElement (branch 1 [leaf 2, leaf 3])"
    by (simp add: example_defs IsEditorialElement_def)
  have v: "visibleNodes (branch 1 [leaf 2, leaf 3]) = [branch 1 [leaf 2, leaf 3], leaf 2, leaf 3]"
    by (simp add: example_defs SkipChildren_def IsEditorialElement_def IsSystemElement_def Is_def)
  have m: "m_isModified freshList" "rebuilds freshList = 0"
    by (simp_all add: freshList_def)
  show ?thesis
    using C6_cached_list [of "- 1" "branch 1 [leaf 2, leaf 3]" freshList "\<lambda>l. l" "branch 1 [leaf 2]"]
      ne v m by (simp add: prod_eq_iff)
qed


text \<open>
  The walk of \<^verbatim>\<open>FillFlatList\<close> is visible-only: the child of a hidden wrapper is a
  descendant that the rebuilt list does not hold.
\<close>

theorem C6_counterexample:
  "leaf 3 \<in> set (allNodes (branch 1 [hiddenWrapper 2 [leaf 3]]))
   \<and> fst (GetList (- 1) (\<lambda>l. l) (branch 1 [hiddenWrapper 2 [leaf 3]]) freshList) =
       [branch 1 [hiddenWrapper 2 [leaf 3]], hiddenWrapper 2 [leaf 3]]
   \<and> leaf 3 \<notin> set (fst (GetList (- 1) (\<lambda>l. l) (branch 1 [hiddenWrapper 2 [leaf 3]]) freshList))"
proof -
  have a: "leaf 3 \<in> set (allNodes (branch 1 [hiddenWrapper 2 [leaf 3]]))"
    by (simp add: branch_def hiddenWrapper_def leaf_def)
  have ne: "\<not> IsEditorialElement (branch 1 [hiddenWrapper 2 [leaf 3]])"
    by (simp add: example_defs IsEditorialElement_def)
  have v: "visibleNodes (branch 1 [hiddenWrapper 2 [leaf 3]]) =
      [branch 1 [hiddenWrapper 2 [leaf 3]], hiddenWrapper 2 [leaf 3]]"
    by (simp add: example_defs hiddenWrapper_def SkipChildren_def IsEditorialElement_def
        IsSystemElement_def Is_def)
  have f: "fst (FillFlatList (- 1) (branch 1 [hiddenWrapper 2 [leaf 3]]) ([], None)) =
      [] @ visibleNodes (branch 1 [hiddenWrapper 2 [leaf 3]])"
    using ne by (intro FillFlatList_visible) simp
  have g: "fst (GetList (- 1) (\<lambda>l. l) (branch 1 [hiddenWrapper 2 [leaf 3]]) freshList) =
      [branch 1 [hiddenWrapper 2 [leaf 3]], hiddenWrapper 2 [leaf 3]]"
    using f v
    by (simp add: GetList_def ResetList_def IsModified_def Modify_def freshList_def Let_def)
  have "leaf 3 \<noteq> branch 1 [hiddenWrapper 2 [leaf 3]]" "leaf 3 \<noteq> hiddenWrapper 2 [leaf 3]"
    by (simp_all add: leaf_def branch_def hiddenWrapper_def)
  then show ?thesis using a g by simp
qed

section \<open>The overflow pass\<close>














lemma size_cautionStaffDef: "c \<in> set (cautionStaffDefs this) \<Longrightarrow> size c < size this"
  using size_list_estimation' [of c "cautionStaffDefs this" "size c" size]
  by (cases this) simp
















section \<open>Objects in the store: parents, children and ownership\<close>

text \<open>
  The operations that move an object between parents work on pointers: the same object can
  stand in the child sequences of two parents, and what \<^verbatim>\<open>ClearChildren\<close> does with a
  child depends on what the child's parent pointer says at that moment. Objects are therefore
  kept in a store, from addresses to the members these operations touch: the class name, the
  parent pointer, the child sequence, the dirty flag and the reference flag. The store
  keeps a log of the deletions, as pairs (the object whose loop deleted, the object deleted).
  The operations that move objects free nothing; the teardown does, and there the store is
  paired with the set of the freed addresses. Failed assertions (the preconditions of the
  source, fatal in a debug build), indices for which the behaviour of the vector is
  undefined and reads through a pointer to a freed object are faults.
\<close>

type_synonym addr = nat

record HeapObject =
  m_classIdStr :: string
  m_parent :: "addr option"
  m_childPtrs :: "addr list"
  m_modified :: bool
  m_isReferenceObject :: bool

datatype LogEntry = LogErrorAdding string string

datatype Fault = AssertionFailed | UndefinedBehaviour | OutOfFuel

record Store =
  heap :: "addr \<Rightarrow> HeapObject"
  deleteLog :: "(addr \<times> addr) list"
  errorLog :: "LogEntry list"

text \<open>A change of the object at an address.\<close>

definition onObject :: "addr \<Rightarrow> (HeapObject \<Rightarrow> HeapObject) \<Rightarrow> Store \<Rightarrow> Store" where
  "onObject a change st = st\<lparr>heap := (heap st)(a := change (heap st a))\<rparr>"

text \<open>
  Modelled from the spec: \<^verbatim>\<open>GetClassName\<close>, \<^verbatim>\<open>GetParent\<close> and
  \<^verbatim>\<open>ResetParent\<close> are defined in \<^verbatim>\<open>object.h\<close>, which is not among the sources.
  The spec has the class name as the external type name of a node, the parent as a non-owning
  back-reference, and relinquishing as resetting it.
\<close>

definition GetClassName :: "Store \<Rightarrow> addr \<Rightarrow> string" where
  "GetClassName st this = m_classIdStr (heap st this)"

definition GetParent :: "Store \<Rightarrow> addr \<Rightarrow> addr option" where
  "GetParent st this = m_parent (heap st this)"

definition ResetParent :: "addr \<Rightarrow> Store \<Rightarrow> Store" where
  "ResetParent this st = onObject this (\<lambda>obj. obj\<lparr>m_parent := None\<rparr>) st"

text \<open>\<^verbatim>\<open>Object::SetParent\<close>, with its assertion that the object has no parent yet.\<close>

definition SetParent :: "addr \<Rightarrow> addr \<Rightarrow> Store \<Rightarrow> Fault + Store" where
  "SetParent this parent st =
     (if m_parent (heap st this) \<noteq> None then Inl AssertionFailed
      else Inr (onObject this (\<lambda>obj. obj\<lparr>m_parent := Some parent\<rparr>) st))"

text \<open>
  \<^verbatim>\<open>Object::InsertChild\<close>, \<^verbatim>\<open>Object::DetachChild\<close>, \<^verbatim>\<open>Object::Relinquish\<close>
  and \<^verbatim>\<open>Object::ClearRelinquishedChildren\<close>. The index is a C \<^verbatim>\<open>int\<close>; the
  source compares it with the size only from above, and a negative index is undefined
  behaviour (or an exception of \<^verbatim>\<open>at\<close>).
\<close>

definition InsertChild :: "addr \<Rightarrow> addr \<Rightarrow> int \<Rightarrow> Store \<Rightarrow> Fault + Store" where
  "InsertChild this element idx st =
     (if GetParent st element \<noteq> Some this then Inl AssertionFailed
      else if idx \<ge> int (length (m_childPtrs (heap st this))) then
        Inr (onObject this (\<lambda>obj. obj\<lparr>m_childPtrs := m_childPtrs obj @ [element]\<rparr>) st)
      else if idx < 0 then Inl UndefinedBehaviour
      else
        Inr (onObject this
          (\<lambda>obj. obj\<lparr>m_childPtrs :=
             take (nat idx) (m_childPtrs obj) @ element # drop (nat idx) (m_childPtrs obj)\<rparr>) st))"

definition DetachChild :: "addr \<Rightarrow> int \<Rightarrow> Store \<Rightarrow> Fault + (addr option \<times> Store)" where
  "DetachChild this idx st =
     (if idx \<ge> int (length (m_childPtrs (heap st this))) then Inr (None, st)
      else if idx < 0 then Inl UndefinedBehaviour
      else
        let child = m_childPtrs (heap st this) ! nat idx;
            st1 = ResetParent child st
        in Inr (Some child,
             onObject this
               (\<lambda>obj. obj\<lparr>m_childPtrs :=
                  take (nat idx) (m_childPtrs obj) @ drop (Suc (nat idx)) (m_childPtrs obj)\<rparr>) st1))"

definition Relinquish :: "addr \<Rightarrow> int \<Rightarrow> Store \<Rightarrow> Fault + (addr option \<times> Store)" where
  "Relinquish this idx st =
     (if idx \<ge> int (length (m_childPtrs (heap st this))) then Inr (None, st)
      else if idx < 0 then Inl UndefinedBehaviour
      else
        let child = m_childPtrs (heap st this) ! nat idx
        in Inr (Some child, ResetParent child st))"

definition ClearRelinquishedChildren :: "addr \<Rightarrow> Store \<Rightarrow> Store" where
  "ClearRelinquishedChildren this st =
     onObject this
       (\<lambda>obj. obj\<lparr>m_childPtrs := filter (\<lambda>child. GetParent st child = Some this) (m_childPtrs obj)\<rparr>) st"

text \<open>
  \<^verbatim>\<open>Object::Modify\<close> on the store. The recursion follows the parent pointers and ends
  only if they lead to an object without parent, so it runs on fuel: \<open>None\<close> is a call
  that has not returned within the fuel. The source calls \<^verbatim>\<open>Modify()\<close> without
  argument, on the parent here and in \<^verbatim>\<open>AddChild\<close>; the default of the argument is
  declared in \<^verbatim>\<open>object.h\<close>, which is not among the sources, and is taken to be
  \<^verbatim>\<open>true\<close>: the spec has a mutation mark the node and all its ancestors dirty.
\<close>

fun Modify_heap :: "nat \<Rightarrow> bool \<Rightarrow> addr \<Rightarrow> Store \<Rightarrow> Store option" where
  "Modify_heap 0 modified this st = None"
| "Modify_heap (Suc fuel) modified this st =
     (case (case m_parent (heap st this) of
              Some parent \<Rightarrow> if modified then Modify_heap fuel True parent st else Some st
            | None \<Rightarrow> Some st) of
        None \<Rightarrow> None
      | Some st1 \<Rightarrow> Some (onObject this (\<lambda>obj. obj\<lparr>m_modified := modified\<rparr>) st1))"

text \<open>
  \<^verbatim>\<open>Object::AddChild\<close>. \<^verbatim>\<open>IsSupportedChild\<close> is virtual: the argument stands
  for the override of the parent's class (the one of \<^verbatim>\<open>Object\<close> itself answers
  false); it sees the parent and the child.
\<close>

definition AddChild :: "nat \<Rightarrow> (HeapObject \<Rightarrow> HeapObject \<Rightarrow> bool) \<Rightarrow> addr \<Rightarrow> addr \<Rightarrow> Store
    \<Rightarrow> Fault + Store" where
  "AddChild fuel IsSupportedChild this child st =
     (if \<not> (GetClassName st child = ''Staff'' \<and> GetClassName st this = ''Section'') \<and>
         \<not> IsSupportedChild (heap st this) (heap st child) then
        Inr (st\<lparr>errorLog := errorLog st @
               [LogErrorAdding (GetClassName st child) (GetClassName st this)]\<rparr>)
      else
        (case SetParent child this st of
           Inl fault \<Rightarrow> Inl fault
         | Inr st1 \<Rightarrow>
             let st2 = onObject this (\<lambda>obj. obj\<lparr>m_childPtrs := m_childPtrs obj @ [child]\<rparr>) st1
             in (case Modify_heap fuel True this st2 of
                   None \<Rightarrow> Inl OutOfFuel
                 | Some st3 \<Rightarrow> Inr st3)))"

text \<open>
  The three calls by which the source moves a child to another parent (the body of the loop of
  \<^verbatim>\<open>Object::MoveChildrenFrom\<close>), for the child and the target at index 0:
  \<^verbatim>\<open>Relinquish\<close>, \<^verbatim>\<open>SetParent\<close>, \<^verbatim>\<open>InsertChild\<close>.
\<close>

definition moveFirstChild :: "addr \<Rightarrow> addr \<Rightarrow> Store \<Rightarrow> Fault + Store" where
  "moveFirstChild P Q st =
     (case Relinquish P 0 st of
        Inl fault \<Rightarrow> Inl fault
      | Inr (None, st1) \<Rightarrow> Inl UndefinedBehaviour
      | Inr (Some child, st1) \<Rightarrow>
          (case SetParent child Q st1 of
             Inl fault \<Rightarrow> Inl fault
           | Inr st2 \<Rightarrow> InsertChild Q child 0 st2))"

text \<open>
  The ancestors of an object, parent first, when the parent pointers lead to a root; the
  store with the dirty flag set on some objects; an assignment of ranks under which every
  owned child (in the sequence of its parent, with the parent pointer pointing back) ranks
  below its parent.
\<close>

inductive parentChain :: "Store \<Rightarrow> addr \<Rightarrow> addr list \<Rightarrow> bool" where
  parentChain_root: "m_parent (heap st a) = None \<Longrightarrow> parentChain st a []"
| parentChain_up: "m_parent (heap st a) = Some p \<Longrightarrow> parentChain st p ps \<Longrightarrow> parentChain st a (p # ps)"

definition markModified :: "addr list \<Rightarrow> Store \<Rightarrow> Store" where
  "markModified as st =
     st\<lparr>heap := (\<lambda>x. if x \<in> set as then (heap st x)\<lparr>m_modified := True\<rparr> else heap st x)\<rparr>"


subsection \<open>An example store\<close>

text \<open>
  Two sections, 1 with the measures 3 and 4 and 2 empty, a staff 5 in measure 3, and a staff 6
  without parent.
\<close>

definition plainObject :: "string \<Rightarrow> addr option \<Rightarrow> addr list \<Rightarrow> HeapObject" where
  "plainObject cls parent cs =
     \<lparr>m_classIdStr = cls, m_parent = parent, m_childPtrs = cs, m_modified = False,
      m_isReferenceObject = False\<rparr>"

definition exampleStore :: Store where
  "exampleStore =
     \<lparr>heap = (\<lambda>a. plainObject ''Object'' None [])
        (1 := plainObject ''Section'' None [3, 4],
         2 := plainObject ''Section'' None [],
         3 := plainObject ''Measure'' (Some 1) [5],
         4 := plainObject ''Measure'' (Some 1) [],
         5 := plainObject ''Staff'' (Some 3) [],
         6 := plainObject ''Staff'' None []),
      deleteLog = [], errorLog = []\<rparr>"

subsection \<open>Appending a child\<close>

lemma heap_onObject [simp]:
  "heap (onObject a change st) = (heap st)(a := change (heap st a))"
  by (simp add: onObject_def)

lemma deleteLog_onObject [simp]: "deleteLog (onObject a change st) = deleteLog st"
  by (simp add: onObject_def)

lemma errorLog_onObject [simp]: "errorLog (onObject a change st) = errorLog st"
  by (simp add: onObject_def)

lemma Store_heap_eqI: "(\<And>x. f x = g x) \<Longrightarrow> st\<lparr>heap := f\<rparr> = st\<lparr>heap := g\<rparr>"
proof -
  assume "\<And>x. f x = g x"
  then have "f = g" by (rule ext)
  then show ?thesis by simp
qed

lemma Modify_heap_chain:
  "parentChain st a ps \<Longrightarrow> length ps < fuel \<Longrightarrow>
    Modify_heap fuel True a st = Some (markModified (a # ps) st)"
proof (induction arbitrary: fuel rule: parentChain.induct)
  case (parentChain_root st a)
  then obtain n where "fuel = Suc n" by (cases fuel) auto
  then show ?case
    using parentChain_root by (auto simp: markModified_def onObject_def intro!: Store_heap_eqI)
next
  case (parentChain_up st a p ps)
  then obtain n where n: "fuel = Suc n" "length ps < n" by (cases fuel) auto
  have "Modify_heap n True p st = Some (markModified (p # ps) st)"
    using parentChain_up.IH [OF n(2)] .
  then show ?case
    using parentChain_up.hyps(1) n(1)
    by (auto simp: markModified_def onObject_def intro!: Store_heap_eqI)
qed

lemma parentChain_cong:
  "parentChain st a ps \<Longrightarrow> (\<And>x. x \<in> set (a # ps) \<Longrightarrow> m_parent (heap st' x) = m_parent (heap st x))
    \<Longrightarrow> parentChain st' a ps"
proof (induction rule: parentChain.induct)
  case (parentChain_root st a)
  then show ?case by (simp add: parentChain.parentChain_root)
next
  case (parentChain_up st a p ps)
  have "parentChain st' p ps" using parentChain_up by simp
  moreover have "m_parent (heap st' a) = Some p" using parentChain_up by simp
  ultimately show ?case by (rule parentChain.parentChain_up [rotated])
qed


text \<open>
  Claim C7 (as amended). \<^verbatim>\<open>AddChild\<close> is gated by the is-supported-child check for
  every pair but one: when the child is not a Staff appended to a Section and the check
  rejects it, the call logs an error and changes nothing else (child sequence and parent
  pointer stay), whatever the fuel. A Staff is appended to a Section without the check being
  asked; and an accepted child without parent is appended at the end, gets the parent
  pointer, and the parent and its ancestors are marked modified (here the parent pointers
  from the parent lead to a root that is not the child, and the fuel is enough for them).
\<close>

theorem C7_AddChild_gate:
  "(\<not> (GetClassName st child = ''Staff'' \<and> GetClassName st this = ''Section'') \<and>
      \<not> IsSupportedChild (heap st this) (heap st child) \<longrightarrow>
        AddChild fuel IsSupportedChild this child st =
          Inr (st\<lparr>errorLog := errorLog st @
                [LogErrorAdding (GetClassName st child) (GetClassName st this)]\<rparr>))
    \<and> (((GetClassName st child = ''Staff'' \<and> GetClassName st this = ''Section'') \<or>
          IsSupportedChild (heap st this) (heap st child)) \<and>
        GetParent st child = None \<and> parentChain st this ps \<and> child \<notin> set (this # ps) \<and>
        length ps < fuel \<longrightarrow>
        (\<exists>st'. AddChild fuel IsSupportedChild this child st = Inr st'
           \<and> m_childPtrs (heap st' this) = m_childPtrs (heap st this) @ [child]
           \<and> GetParent st' child = Some this
           \<and> list_all (\<lambda>x. m_modified (heap st' x)) (this # ps)
           \<and> errorLog st' = errorLog st))"
proof -
  have rejected: "AddChild fuel IsSupportedChild this child st =
      Inr (st\<lparr>errorLog := errorLog st @ [LogErrorAdding (GetClassName st child) (GetClassName st this)]\<rparr>)"
    if "\<not> (GetClassName st child = ''Staff'' \<and> GetClassName st this = ''Section'')"
      "\<not> IsSupportedChild (heap st this) (heap st child)"
    using that by (simp add: AddChild_def)
  have accepted: "\<exists>st'. AddChild fuel IsSupportedChild this child st = Inr st'
           \<and> m_childPtrs (heap st' this) = m_childPtrs (heap st this) @ [child]
           \<and> GetParent st' child = Some this
           \<and> list_all (\<lambda>x. m_modified (heap st' x)) (this # ps)
           \<and> errorLog st' = errorLog st"
    if g: "(GetClassName st child = ''Staff'' \<and> GetClassName st this = ''Section'') \<or>
          IsSupportedChild (heap st this) (heap st child)"
      and np: "GetParent st child = None" and ch: "parentChain st this ps"
      and nc: "child \<notin> set (this # ps)" and fu: "length ps < fuel"
  proof -
    let ?st1 = "onObject child (\<lambda>obj. obj\<lparr>m_parent := Some this\<rparr>) st"
    let ?st2 = "onObject this (\<lambda>obj. obj\<lparr>m_childPtrs := m_childPtrs obj @ [child]\<rparr>) ?st1"
    have sp: "SetParent child this st = Inr ?st1"
      using np by (simp add: SetParent_def GetParent_def)
    have "parentChain ?st2 this ps"
      using ch nc by (rule_tac parentChain_cong [of st]) auto
    then have mo: "Modify_heap fuel True this ?st2 = Some (markModified (this # ps) ?st2)"
      using fu by (rule Modify_heap_chain)
    have ad: "AddChild fuel IsSupportedChild this child st = Inr (markModified (this # ps) ?st2)"
      using g sp mo by (auto simp: AddChild_def Let_def)
    show ?thesis
      using nc by (auto simp: ad markModified_def GetParent_def list_all_iff)
  qed
  show ?thesis
    using rejected accepted by blast
qed

theorem C7_AddChild_gate_witness:
  "AddChild (Suc 0) (\<lambda>this child. False) 3 6 exampleStore =
      Inr (exampleStore\<lparr>errorLog := [LogErrorAdding ''Staff'' ''Measure'']\<rparr>)
   \<and> (\<exists>st'. AddChild (Suc 0) (\<lambda>this child. False) 2 6 exampleStore = Inr st'
         \<and> m_childPtrs (heap st' 2) = [6] \<and> GetParent st' 6 = Some 2
         \<and> m_modified (heap st' 2) \<and> errorLog st' = [])"
proof -
  have c: "parentChain exampleStore 2 []"
    by (rule parentChain_root) (simp add: exampleStore_def plainObject_def)
  have g: "GetClassName exampleStore 6 = ''Staff''" "GetClassName exampleStore 2 = ''Section''"
    "GetClassName exampleStore 3 = ''Measure''" "GetParent exampleStore 6 = None"
    "m_childPtrs (heap exampleStore 2) = []" "errorLog exampleStore = []"
    by (simp_all add: GetClassName_def GetParent_def exampleStore_def plainObject_def)
  show ?thesis
    using C7_AddChild_gate [of exampleStore 6 3 "\<lambda>this child. False" "Suc 0" "[]"]
      C7_AddChild_gate [of exampleStore 6 2 "\<lambda>this child. False" "Suc 0" "[]"] c g
    by simp
qed


text \<open>
  A Section takes a Staff although the check (here the one of \<^verbatim>\<open>Object\<close>, which
  rejects every child) would reject it, and nothing is logged.
\<close>

theorem C7_counterexample:
  "(case AddChild (Suc 0) (\<lambda>this child. False) 2 6 exampleStore of
      Inl fault \<Rightarrow> False
    | Inr st' \<Rightarrow> m_childPtrs (heap st' 2) = [6] \<and> GetParent st' 6 = Some 2 \<and> errorLog st' = [])"
  by (simp add: AddChild_def SetParent_def GetClassName_def GetParent_def exampleStore_def
      plainObject_def Let_def)


subsection \<open>Moving a child to another parent\<close>

text \<open>
  Claim C8 (as amended). For a parent \<open>P\<close> whose first child is \<open>c\<close>, another parent \<open>Q\<close>,
  the three objects distinct: \<^verbatim>\<open>Relinquish(0)\<close> returns \<open>c\<close>; inserting \<open>c\<close> into
  \<open>Q\<close> right away fails the assertion of \<^verbatim>\<open>InsertChild\<close>; after
  \<^verbatim>\<open>SetParent(Q)\<close> and \<^verbatim>\<open>InsertChild(c, 0)\<close> the sequence of \<open>Q\<close> has \<open>c\<close> in
  front of its old children and the parent of \<open>c\<close> is \<open>Q\<close>, while the sequence of \<open>P\<close> is
  unchanged and still holds \<open>c\<close>. \<^verbatim>\<open>ClearRelinquishedChildren\<close> on \<open>P\<close> then
  removes \<open>c\<close>: when the other children of \<open>P\<close> are not \<open>c\<close> and have \<open>P\<close> as parent, the
  count of \<open>P\<close> has gone down by one.
\<close>

theorem C8_relinquish_and_reinsert:
  assumes "m_childPtrs (heap st P) = c # rest" and "P \<noteq> Q" and "c \<noteq> P" and "c \<noteq> Q"
  shows "\<exists>st1 st3. Relinquish P 0 st = Inr (Some c, st1)
      \<and> InsertChild Q c 0 st1 = Inl AssertionFailed
      \<and> moveFirstChild P Q st = Inr st3
      \<and> m_childPtrs (heap st3 Q) = c # m_childPtrs (heap st Q)
      \<and> GetParent st3 c = Some Q
      \<and> m_childPtrs (heap st3 P) = c # rest
      \<and> m_childPtrs (heap (ClearRelinquishedChildren P st3) P) =
          filter (\<lambda>x. x \<noteq> c \<and> GetParent st x = Some P) rest
      \<and> (list_all (\<lambda>x. x \<noteq> c \<and> GetParent st x = Some P) rest \<longrightarrow>
          length (m_childPtrs (heap (ClearRelinquishedChildren P st3) P)) =
            length (m_childPtrs (heap st P)) - 1)"
proof -
  let ?st1 = "ResetParent c st"
  let ?st2 = "onObject c (\<lambda>obj. obj\<lparr>m_parent := Some Q\<rparr>) ?st1"
  have r: "Relinquish P 0 st = Inr (Some c, ?st1)"
    using assms(1) by (simp add: Relinquish_def Let_def)
  have a: "InsertChild Q c 0 ?st1 = Inl AssertionFailed"
    by (simp add: InsertChild_def GetParent_def ResetParent_def)
  have s: "SetParent c Q ?st1 = Inr ?st2"
    by (simp add: SetParent_def ResetParent_def)
  obtain st3 where i: "InsertChild Q c 0 ?st2 = Inr st3"
      and q: "m_childPtrs (heap st3 Q) = c # m_childPtrs (heap st Q)"
      and h: "\<And>x. x \<noteq> Q \<Longrightarrow> heap st3 x = heap ?st2 x"
      and pq: "m_parent (heap st3 Q) = m_parent (heap st Q)"
    using assms(4) by (cases "m_childPtrs (heap st Q)")
      (auto simp: InsertChild_def GetParent_def ResetParent_def)
  have m: "moveFirstChild P Q st = Inr st3"
    by (simp add: moveFirstChild_def r s i)
  have pc: "GetParent st3 c = Some Q"
    using h [of c] assms(4) by (simp add: GetParent_def ResetParent_def)
  have pp: "m_childPtrs (heap st3 P) = c # rest"
    using h [of P] assms(1,2,3) by (simp add: ResetParent_def)
  have par: "GetParent st3 x = GetParent st x" if "x \<noteq> c" for x
  proof (cases "x = Q")
    case True
    then show ?thesis using pq by (simp add: GetParent_def)
  next
    case False
    then show ?thesis using h [of x] that by (simp add: GetParent_def ResetParent_def)
  qed
  have "(GetParent st3 x = Some P) = (x \<noteq> c \<and> GetParent st x = Some P)" for x
    using par [of x] pc assms(2) by (cases "x = c") auto
  then have "filter (\<lambda>x. GetParent st3 x = Some P) rest = filter (\<lambda>x. x \<noteq> c \<and> GetParent st x = Some P) rest"
    by simp
  then have cl: "m_childPtrs (heap (ClearRelinquishedChildren P st3) P) =
      filter (\<lambda>x. x \<noteq> c \<and> GetParent st x = Some P) rest"
    using pc pp assms(2) by (simp add: ClearRelinquishedChildren_def)
  have "length (m_childPtrs (heap (ClearRelinquishedChildren P st3) P)) =
      length (m_childPtrs (heap st P)) - 1"
    if "list_all (\<lambda>x. x \<noteq> c \<and> GetParent st x = Some P) rest"
    using that cl assms(1) by (simp add: list_all_iff filter_id_conv)
  then show ?thesis
    using r a m q pc pp cl by blast
qed

theorem C8_relinquish_and_reinsert_witness:
  "\<exists>st1 st3. Relinquish 1 0 exampleStore = Inr (Some 3, st1)
      \<and> InsertChild 2 3 0 st1 = Inl AssertionFailed
      \<and> moveFirstChild 1 2 exampleStore = Inr st3
      \<and> m_childPtrs (heap st3 2) = [3]
      \<and> GetParent st3 3 = Some 2
      \<and> m_childPtrs (heap st3 1) = [3, 4]
      \<and> m_childPtrs (heap (ClearRelinquishedChildren 1 st3) 1) = [4]"
proof -
  have g: "m_childPtrs (heap exampleStore 1) = 3 # [4]" "m_childPtrs (heap exampleStore 2) = []"
    "GetParent exampleStore 4 = Some 1"
    by (simp_all add: GetParent_def exampleStore_def plainObject_def)
  show ?thesis
    using C8_relinquish_and_reinsert [OF g(1), of 2] g(2,3) by simp blast
qed


text \<open>
  After relinquishing and reinserting, the count of \<open>P\<close> is what it was.
\<close>

theorem C8_counterexample:
  "(case moveFirstChild 1 2 exampleStore of
      Inl fault \<Rightarrow> False
    | Inr st \<Rightarrow>
        length (m_childPtrs (heap st 1)) = length (m_childPtrs (heap exampleStore 1))
        \<and> length (m_childPtrs (heap st 2)) = Suc (length (m_childPtrs (heap exampleStore 2)))
        \<and> GetParent st 3 = Some 2)"
  by (simp add: moveFirstChild_def Relinquish_def SetParent_def InsertChild_def ResetParent_def
      GetParent_def exampleStore_def plainObject_def Let_def)


subsection \<open>Teardown\<close>

text \<open>
  \<^verbatim>\<open>delete\<close> frees an object, and the loop of \<^verbatim>\<open>ClearChildren\<close> goes on
  reading the pointers that are left in the child sequence. Reading a member through a
  pointer to a freed object is undefined in the source. For the teardown the store is
  therefore paired with the set of the addresses that have been freed.
\<close>

record Memory =
  objects :: Store
  freed :: "addr set"

text \<open>
  \<^verbatim>\<open>Object::ClearChildren\<close>; \<open>deleteChildren\<close> is its loop. The loop reads
  \<^verbatim>\<open>(*iter)->GetParent()\<close> of every child in the sequence, which is the fault
  \<open>UndefinedBehaviour\<close> when that child has been freed, and so is the call on a freed object
  itself. \<^verbatim>\<open>delete\<close> on a child runs the destructor, \<^verbatim>\<open>Object::~Object\<close>,
  which is \<^verbatim>\<open>ClearChildren\<close> on the child, then frees the child; the deletion is
  also recorded in the log of the store, with the object whose loop made it. The recursion
  follows the child sequences, so it runs on fuel.
\<close>

fun ClearChildren :: "nat \<Rightarrow> addr \<Rightarrow> Memory \<Rightarrow> Fault + Memory"
  and deleteChildren :: "nat \<Rightarrow> addr \<Rightarrow> addr list \<Rightarrow> Memory \<Rightarrow> Fault + Memory" where
  "ClearChildren 0 this m = Inl OutOfFuel"
| "ClearChildren (Suc fuel) this m =
     (if this \<in> freed m then Inl UndefinedBehaviour
      else if m_isReferenceObject (heap (objects m) this) then
        Inr (m\<lparr>objects := onObject this (\<lambda>obj. obj\<lparr>m_childPtrs := []\<rparr>) (objects m)\<rparr>)
      else
        (case deleteChildren fuel this (m_childPtrs (heap (objects m) this)) m of
           Inl fault \<Rightarrow> Inl fault
         | Inr m1 \<Rightarrow>
             Inr (m1\<lparr>objects := onObject this (\<lambda>obj. obj\<lparr>m_childPtrs := []\<rparr>) (objects m1)\<rparr>)))"
| "deleteChildren fuel this [] m = Inr m"
| "deleteChildren fuel this (child # rest) m =
     (if child \<in> freed m then Inl UndefinedBehaviour
      else if GetParent (objects m) child = Some this then
        (case ClearChildren fuel child m of
           Inl fault \<Rightarrow> Inl fault
         | Inr m1 \<Rightarrow>
             deleteChildren fuel this rest
               (m1\<lparr>objects := (objects m1)\<lparr>deleteLog := deleteLog (objects m1) @ [(this, child)]\<rparr>,
                   freed := insert child (freed m1)\<rparr>))
      else deleteChildren fuel this rest m)"

text \<open>
  What a teardown touches. The loop of an object \<open>p\<close> that is not a reference object reads
  every pointer in the sequence of \<open>p\<close> and deletes those whose parent pointer is \<open>p\<close>. The
  objects whose \<^verbatim>\<open>ClearChildren\<close> runs within the teardown of \<open>this\<close> are \<open>this\<close>
  and what the loops of such objects delete.
\<close>

definition readsChild :: "Store \<Rightarrow> addr \<Rightarrow> addr \<Rightarrow> bool" where
  "readsChild st p c \<longleftrightarrow>
     \<not> m_isReferenceObject (heap st p) \<and> c \<in> set (m_childPtrs (heap st p))"

definition deletesChild :: "Store \<Rightarrow> addr \<Rightarrow> addr \<Rightarrow> bool" where
  "deletesChild st p c \<longleftrightarrow> readsChild st p c \<and> m_parent (heap st c) = Some p"

inductive inTeardown :: "Store \<Rightarrow> addr \<Rightarrow> addr \<Rightarrow> bool" for st :: Store and this :: addr where
  inTeardown_self: "inTeardown st this this"
| inTeardown_child: "inTeardown st this p \<Longrightarrow> deletesChild st p c \<Longrightarrow> inTeardown st this c"







text \<open>
  Example memories, nothing freed. In the first, section 1 lists the measures 3, 4 and 7:
  it owns 3 (with the staff 5), 4 has been moved to section 2 and 7 has been relinquished,
  both still standing in the sequence of 1. The second is reached from the example store by
  relinquishing measure 4 from section 1 and inserting it into measure 3, its sibling: 4
  stands in the sequences of 1 and of 3, and 3 owns it.
\<close>

definition sharedStore :: Store where
  "sharedStore =
     \<lparr>heap = (\<lambda>a. plainObject ''Object'' None [])
        (1 := plainObject ''Section'' None [3, 4, 7],
         2 := plainObject ''Section'' None [4],
         3 := plainObject ''Measure'' (Some 1) [5],
         4 := plainObject ''Measure'' (Some 2) [],
         5 := plainObject ''Staff'' (Some 3) [],
         7 := plainObject ''Measure'' None []),
      deleteLog = [], errorLog = []\<rparr>"


























lemma sharedStore_run:
  "(case ClearChildren 3 1 \<lparr>objects = sharedStore, freed = {}\<rparr> of
      Inl fault \<Rightarrow> False
    | Inr m' \<Rightarrow> deleteLog (objects m') = [(3, 5), (1, 3)] \<and> freed m' = {3, 5}
        \<and> m_childPtrs (heap (objects m') 1) = [])"
  by (simp add: numeral_3_eq_3 sharedStore_def plainObject_def GetParent_def onObject_def insert_commute)



end
